theory Spec2Isabelle
  imports Complex_Main "HOL-Library.Word" "HOL-Library.Multiset"
begin

unbundle bit_operations_syntax

section \<open>Data model\<close>

text \<open>
  The C types: \<open>INT\<close> and \<open>SHORT\<close> values that are used as sizes and indices are
  natural numbers, those that can be negative (status codes, markers, type codes) are
  integers, and \<open>REAL\<close> is modelled by the real numbers.

  \<open>dCSRmat\<close> and \<open>iCSRmat\<close> have the same layout and differ only in the type of the
  payload; the payload pointer may be \<open>NULL\<close> (a purely structural matrix).
\<close>

record 'a CSRmat =
  row :: nat
  col :: nat
  nnz :: nat
  IA :: "nat list"
  JA :: "nat list"
  val :: "'a list option"

type_synonym dCSRmat = "real CSRmat"
type_synonym iCSRmat = "int CSRmat"

text \<open>Status codes of \<open>messages.h\<close>.\<close>

definition SUCCESS :: int where "SUCCESS = 0"
definition RUN_FAIL :: int where "RUN_FAIL = - 100"

text \<open>Vertex labels of \<open>messages.h\<close>.\<close>

definition FGPT :: int where "FGPT = 0"
definition CGPT :: int where "CGPT = 1"
definition ISPT :: int where "ISPT = 2"
definition UNPT :: int where "UNPT = - 1"

text \<open>A product of two 32-bit \<open>INT\<close> values, as the machine computes it.\<close>

definition INT_mul :: "int \<Rightarrow> int \<Rightarrow> int" where
  "INT_mul a b = signed_take_bit 31 (a * b)"

section \<open>Reading a CSR matrix\<close>

text \<open>
  The payload array of a matrix (empty when the pointer is \<open>NULL\<close>), and the values
  stored in row \<open>i\<close>, i.e. at the positions \<open>IA[i] \<le> j < IA[i+1]\<close>.
\<close>

definition vals :: "'a CSRmat \<Rightarrow> 'a list" where
  "vals M = (case val M of Some v \<Rightarrow> v | None \<Rightarrow> [])"

definition row_vals :: "'a CSRmat \<Rightarrow> nat \<Rightarrow> 'a list" where
  "row_vals M i = map (\<lambda>j. vals M ! j) [IA M ! i ..< IA M ! Suc i]"

text \<open>The columns stored in row \<open>i\<close> of a matrix.\<close>

definition row_cols :: "'a CSRmat \<Rightarrow> nat \<Rightarrow> nat list" where
  "row_cols M i = map (\<lambda>j. JA M ! j) [IA M ! i ..< IA M ! Suc i]"

section \<open>Transposition: \<open>fasp_dcsr_trans\<close> and \<open>fasp_icsr_trans\<close>\<close>

text \<open>
  The two functions are the same code on the two payload types:
  \<^verbatim>\<open>
  AT->row=m; AT->col=n; AT->nnz=nnz;
  AT->IA=calloc(m+1); AT->JA=calloc(nnz);
  if (A->val) AT->val=calloc(nnz); else AT->val=NULL;
  for (j=0;j<nnz;++j) {
      i=A->JA[j];
      if (i<m-1) AT->IA[i+2]++;
  }
  for (i=2;i<=m;++i) AT->IA[i]+=AT->IA[i-1];
  for (i=0;i<n;++i) {
      ibegin=A->IA[i], iend=A->IA[i+1];
      for (p=ibegin;p<iend;p++) {
          j=A->JA[p]+1;
          k=AT->IA[j];
          AT->JA[k]=i;
          AT->val[k]=A->val[p];      /* only if A->val is not NULL */
          AT->IA[j]=k+1;
      }
  }
  \<close>
  The test \<open>i < m-1\<close> on integers is \<open>i + 1 < m\<close>.
\<close>

definition trans_count :: "nat \<Rightarrow> nat list \<Rightarrow> nat \<Rightarrow> nat list \<Rightarrow> nat list" where
  "trans_count m ja j ia = (let i = ja ! j in if i + 1 < m then ia[i + 2 := ia ! (i + 2) + 1] else ia)"

definition trans_accum :: "nat \<Rightarrow> nat list \<Rightarrow> nat list" where
  "trans_accum i ia = ia[i := ia ! i + ia ! (i - 1)]"

definition trans_place ::
  "nat list \<Rightarrow> 'a list option \<Rightarrow> nat \<Rightarrow> nat \<Rightarrow> nat list \<times> nat list \<times> 'a list \<Rightarrow> nat list \<times> nat list \<times> 'a list" where
  "trans_place ja a i p = (\<lambda>(tia, tja, ta).
     let j = ja ! p + 1;
         k = tia ! j
     in (tia[j := k + 1], tja[k := i], (case a of None \<Rightarrow> ta | Some av \<Rightarrow> ta[k := av ! p])))"

definition trans_fill_row ::
  "'a CSRmat \<Rightarrow> nat \<Rightarrow> nat list \<times> nat list \<times> 'a list \<Rightarrow> nat list \<times> nat list \<times> 'a list" where
  "trans_fill_row A i = fold (trans_place (JA A) (val A) i) [IA A ! i ..< IA A ! Suc i]"

definition csr_trans :: "('a::zero) CSRmat \<Rightarrow> 'a CSRmat" where
  "csr_trans A =
     (let n = row A; m = col A; nz = nnz A;
          tia = replicate (m + 1) 0;
          tia = fold (trans_count m (JA A)) [0 ..< nz] tia;
          tia = fold trans_accum [2 ..< m + 1] tia;
          (tia, tja, ta) =
             fold (trans_fill_row A) [0 ..< n]
               (tia, replicate nz 0, replicate (case val A of None \<Rightarrow> 0 | Some _ \<Rightarrow> nz) 0)
      in \<lparr> row = m, col = n, nnz = nz, IA = tia, JA = tja,
           val = (case val A of None \<Rightarrow> None | Some _ \<Rightarrow> Some ta) \<rparr>)"

definition fasp_dcsr_trans :: "dCSRmat \<Rightarrow> dCSRmat" where
  "fasp_dcsr_trans = csr_trans"

definition fasp_icsr_trans :: "iCSRmat \<Rightarrow> iCSRmat" where
  "fasp_icsr_trans = csr_trans"

text \<open>The entries of a matrix as triples (row, column, value), with multiplicity.\<close>

definition row_entries :: "'a CSRmat \<Rightarrow> nat \<Rightarrow> (nat \<times> nat \<times> 'a) list" where
  "row_entries M i = map (\<lambda>p. (i, JA M ! p, vals M ! p)) [IA M ! i ..< IA M ! Suc i]"

definition entries :: "'a CSRmat \<Rightarrow> (nat \<times> nat \<times> 'a) list" where
  "entries M = concat (map (row_entries M) [0 ..< row M])"

definition swap_entry :: "nat \<times> nat \<times> 'a \<Rightarrow> nat \<times> nat \<times> 'a" where
  "swap_entry = (\<lambda>(i, j, v). (j, i, v))"

subsection \<open>Notions for the statements on the transposition\<close>

text \<open>
  The stored positions of a matrix with their rows, in the order of the second pass:
  the pairs (row, position).
\<close>

definition positions :: "'a CSRmat \<Rightarrow> (nat \<times> nat) list" where
  "positions M = concat (map (\<lambda>i. map (Pair i) [IA M ! i ..< IA M ! Suc i]) [0 ..< row M])"

text \<open>
  The number of keys below \<open>c\<close>: where the part of column \<open>c\<close> starts in the arrays of the
  transpose.
\<close>

definition bucket_start :: "nat list \<Rightarrow> nat \<Rightarrow> nat" where
  "bucket_start ks c = length (filter (\<lambda>k. k < c) ks)"

text \<open>
  The body of the inner loop of the second pass on one output array: the entry with
  column \<open>c\<close> and payload \<open>x\<close> goes to the position \<open>AT->IA[c+1]\<close>, which is advanced.
\<close>

definition place :: "nat \<times> 'b \<Rightarrow> nat list \<times> 'b list \<Rightarrow> nat list \<times> 'b list" where
  "place = (\<lambda>(c, x) (tia, out). (tia[c + 1 := tia ! (c + 1) + 1], out[tia ! (c + 1) := x]))"

text \<open>
  The payloads of the entries with key \<open>c\<close>, in their order.
\<close>

definition bucket :: "(nat \<times> 'b) list \<Rightarrow> nat \<Rightarrow> 'b list" where
  "bucket es c = map snd (filter (\<lambda>e. fst e = c) es)"

text \<open>
  The offsets \<open>AT->IA\<close> after \<open>t\<close> steps of the second pass.
\<close>

definition fill_ia :: "(nat \<times> 'b) list \<Rightarrow> nat \<Rightarrow> nat \<Rightarrow> nat list" where
  "fill_ia es m t = map (\<lambda>j. if j = 0 then 0
       else bucket_start (map fst es) (j - 1) + length (bucket (take t es) (j - 1))) [0 ..< Suc m]"

text \<open>
  The entries of a matrix in storage order, each with its column as key and a payload.
\<close>

definition keyed :: "'a CSRmat \<Rightarrow> (nat \<times> nat \<Rightarrow> 'b) \<Rightarrow> (nat \<times> 'b) list" where
  "keyed M f = map (\<lambda>(i, p). (JA M ! p, f (i, p))) (positions M)"

text \<open>
  The stored positions of column \<open>c\<close>, in storage order.
\<close>

definition col_positions :: "'a CSRmat \<Rightarrow> nat \<Rightarrow> (nat \<times> nat) list" where
  "col_positions M c = filter (\<lambda>(i, p). JA M ! p = c) (positions M)"

text \<open>
  The pairs (row, column) of a matrix, with multiplicity.
\<close>

definition edges :: "'a CSRmat \<Rightarrow> (nat \<times> nat) list" where
  "edges M = concat (map (\<lambda>i. map (Pair i) (row_cols M i)) [0 ..< row M])"

text \<open>
  A matrix with two rows and three columns, the first row not in the order of the columns.
\<close>

definition A23 :: dCSRmat where
  "A23 = \<lparr> row = 2, col = 3, nnz = 4, IA = [0, 2, 4], JA = [2, 0, 1, 2],
           val = Some [5, 1, 7, - 3] \<rparr>"

section \<open>Strength graph: \<open>generate_S\<close>\<close>

text \<open>
  \<open>fasp_dcsr_getdiag\<close>, called with \<open>n = 0\<close>: the vector has \<open>MIN(row, col)\<close> entries,
  zeroed by \<open>calloc\<close>, and entry \<open>i\<close> receives the value at the first position of row
  \<open>i\<close> whose column index is \<open>i\<close>.
\<close>

definition first_diag :: "nat list \<Rightarrow> nat \<Rightarrow> nat list \<Rightarrow> nat option" where
  "first_diag ja i js = (case filter (\<lambda>k. ja ! k = i) js of [] \<Rightarrow> None | k # _ \<Rightarrow> Some k)"

definition fasp_dcsr_getdiag :: "dCSRmat \<Rightarrow> real list" where
  "fasp_dcsr_getdiag A =
     fold (\<lambda>i diag. case first_diag (JA A) i [IA A ! i ..< IA A ! Suc i] of
                        None \<Rightarrow> diag
                      | Some k \<Rightarrow> diag[i := vals A ! k])
          [0 ..< min (row A) (col A)] (replicate (min (row A) (col A)) 0)"

text \<open>
  The body of the loop over the rows in \<open>generate_S\<close> (the sequential and the OpenMP
  branch run the same body on every row):
  \<^verbatim>\<open>
  row_scale=0; row_sum=0;
  begin_row=ia[i]; end_row=ia[i+1];
  for (j=begin_row;j<end_row;j++) {
      row_scale=MIN(row_scale, aj[j]);
      row_sum+=aj[j];
  }
  row_sum=ABS(row_sum)/MAX(SMALLREAL,ABS(diag.val[i]));
  for (j=begin_row;j<end_row;j++) {
      if (ja[j]==i) {S->JA[j]=-1; break;}
  }
  if ((row_sum>max_row_sum)&&(max_row_sum<1)) {
      for (j=begin_row;j<end_row;j++) S->JA[j]=-1;
  }
  else {
      for (j=begin_row;j<end_row;j++) {
          if (A->val[j]>=epsilon_str*row_scale) S->JA[j]=-1;
      }
  }
  \<close>
  The constant \<open>SMALLREAL\<close> is defined in a header that is not part of the sources at
  hand; it is a parameter of the model. \<open>MIN\<close>, \<open>MAX\<close> and \<open>ABS\<close> are the usual macros.
\<close>

definition S_row_scale :: "real list \<Rightarrow> nat list \<Rightarrow> real" where
  "S_row_scale aj js = fold (\<lambda>j row_scale. min row_scale (aj ! j)) js 0"

definition S_row_sum :: "real list \<Rightarrow> nat list \<Rightarrow> real" where
  "S_row_sum aj js = fold (\<lambda>j row_sum. row_sum + aj ! j) js 0"

definition S_mark_row ::
  "real \<Rightarrow> real \<Rightarrow> real \<Rightarrow> dCSRmat \<Rightarrow> real list \<Rightarrow> nat \<Rightarrow> int list \<Rightarrow> int list" where
  "S_mark_row SMALLREAL max_row_sum epsilon_str A diag i SJA =
     (let js = [IA A ! i ..< IA A ! Suc i];
          row_scale = S_row_scale (vals A) js;
          row_sum = \<bar>S_row_sum (vals A) js\<bar> / max SMALLREAL \<bar>diag ! i\<bar>;
          SJA = (case first_diag (JA A) i js of None \<Rightarrow> SJA | Some j \<Rightarrow> SJA[j := - 1])
      in if row_sum > max_row_sum \<and> max_row_sum < 1
         then fold (\<lambda>j SJA. SJA[j := - 1]) js SJA
         else fold (\<lambda>j SJA. if vals A ! j \<ge> epsilon_str * row_scale then SJA[j := - 1] else SJA)
                js SJA)"

text \<open>
  The compression of the strength matrix, in place:
  \<^verbatim>\<open>
  index=0;
  for (i=0;i<row;++i) {
      S->IA[i]=index;
      begin_row=ia[i]; end_row=ia[i+1]-1;
      for (j=begin_row;j<=end_row;j++) {
          if (S->JA[j]>-1) {
              S->JA[index]=S->JA[j];
              index++;
          }
      }
  }
  \<close>
\<close>

definition S_compress_row ::
  "nat list \<Rightarrow> nat \<Rightarrow> nat list \<times> int list \<times> nat \<Rightarrow> nat list \<times> int list \<times> nat" where
  "S_compress_row ia i = (\<lambda>(SIA, SJA, index).
     let SIA = SIA[i := index];
         (SJA, index) =
            fold (\<lambda>j (SJA, index). if SJA ! j > - 1 then (SJA[index := SJA ! j], index + 1)
                                      else (SJA, index))
                 [ia ! i ..< ia ! Suc i] (SJA, index)
     in (SIA, SJA, index))"

text \<open>
  \<open>generate_S\<close>: the structure of \<open>A\<close> is copied, the weak positions are marked with
  \<open>-1\<close>, the arrays are compressed, and
  \<^verbatim>\<open>
  if (index > 0) { S->IA[row]=index; S->nnz=index; S->JA=realloc(S->JA, index); }
  else { S->nnz = 0; S->JA = NULL; }
  \<close>
\<close>

definition generate_S :: "real \<Rightarrow> real \<Rightarrow> real \<Rightarrow> dCSRmat \<Rightarrow> iCSRmat" where
  "generate_S SMALLREAL max_row_sum epsilon_str A =
     (let nrow = row A;
          nnzA = IA A ! nrow - IA A ! 0;
          diag = fasp_dcsr_getdiag A;
          SIA = take (nrow + 1) (IA A);
          SJA = map int (take nnzA (JA A));
          SJA = fold (S_mark_row SMALLREAL max_row_sum epsilon_str A diag) [0 ..< nrow] SJA;
          (SIA, SJA, index) = fold (S_compress_row (IA A)) [0 ..< nrow] (SIA, SJA, 0)
      in if index > 0
         then \<lparr> row = nrow, col = col A, nnz = index, IA = SIA[nrow := index],
                JA = map nat (take index SJA), val = None \<rparr>
         else \<lparr> row = nrow, col = col A, nnz = 0, IA = SIA, JA = [], val = None \<rparr>)"

text \<open>
  A well-formed CSR matrix: the row offsets start at 0, do not decrease and end at
  \<open>nnz\<close>, the arrays have the announced lengths and the column indices are below \<open>col\<close>.
\<close>

definition csr_wf :: "'a CSRmat \<Rightarrow> bool" where
  "csr_wf M \<longleftrightarrow>
     length (IA M) = row M + 1 \<and> IA M ! 0 = 0 \<and> IA M ! row M = nnz M \<and>
     (\<forall>i \<in> {0 ..< row M}. IA M ! i \<le> IA M ! Suc i) \<and>
     length (JA M) = nnz M \<and> (\<forall>k \<in> {0 ..< nnz M}. JA M ! k < col M)"

definition dcsr_wf :: "dCSRmat \<Rightarrow> bool" where
  "dcsr_wf M \<longleftrightarrow> csr_wf M \<and> (case val M of None \<Rightarrow> False | Some v \<Rightarrow> length v = nnz M)"

text \<open>
  The strong couplings of row \<open>i\<close> in the words of the specification, with the strict
  comparison of the code: position \<open>p\<close> of row \<open>i\<close> is a strong edge when it is off the
  diagonal, the row is not capped by its row sum, and the entry is below the threshold
  times the minimum of the row (capped above by 0).
\<close>

definition row_min0 :: "dCSRmat \<Rightarrow> nat \<Rightarrow> real" where
  "row_min0 A i = Min (insert 0 (set (row_vals A i)))"

definition diag_val :: "dCSRmat \<Rightarrow> nat \<Rightarrow> real" where
  "diag_val A i = (case first_diag (JA A) i [IA A ! i ..< IA A ! Suc i] of
                     None \<Rightarrow> 0 | Some k \<Rightarrow> vals A ! k)"

definition row_capped :: "real \<Rightarrow> dCSRmat \<Rightarrow> nat \<Rightarrow> bool" where
  "row_capped max_row_sum A i \<longleftrightarrow>
     \<bar>sum_list (row_vals A i)\<bar> / \<bar>diag_val A i\<bar> > max_row_sum \<and> max_row_sum < 1"

definition strong_edge :: "real \<Rightarrow> real \<Rightarrow> dCSRmat \<Rightarrow> nat \<Rightarrow> nat \<Rightarrow> bool" where
  "strong_edge max_row_sum epsilon_str A i p \<longleftrightarrow>
     JA A ! p \<noteq> i \<and> \<not> row_capped max_row_sum A i \<and>
     vals A ! p < epsilon_str * row_min0 A i"

definition strong_cols :: "real \<Rightarrow> real \<Rightarrow> dCSRmat \<Rightarrow> nat \<Rightarrow> nat list" where
  "strong_cols max_row_sum epsilon_str A i =
     map (\<lambda>p. JA A ! p)
       (filter (strong_edge max_row_sum epsilon_str A i) [IA A ! i ..< IA A ! Suc i])"

text \<open>Every row holds its diagonal, exactly once, with a magnitude of at least \<open>SMALLREAL\<close>.\<close>

definition diag_once :: "real \<Rightarrow> dCSRmat \<Rightarrow> bool" where
  "diag_once SMALLREAL A \<longleftrightarrow>
     (\<forall>i \<in> {0 ..< row A}. length (filter (\<lambda>c. c = i) (row_cols A i)) = 1 \<and>
                             SMALLREAL \<le> \<bar>diag_val A i\<bar>)"

subsection \<open>Notions used to describe the run of \<open>generate_S\<close>\<close>

text \<open>
  The test that the code applies to position \<open>p\<close> of row \<open>i\<close>, and the positions of
  row \<open>i\<close> that are not marked in the array \<open>M\<close>.
\<close>

definition kept_code :: "real \<Rightarrow> real \<Rightarrow> real \<Rightarrow> dCSRmat \<Rightarrow> real list \<Rightarrow> nat \<Rightarrow> nat \<Rightarrow> bool" where
  "kept_code SMALLREAL max_row_sum epsilon_str A diag i p \<longleftrightarrow>
     (let js = [IA A ! i ..< IA A ! Suc i] in
      first_diag (JA A) i js \<noteq> Some p \<and>
      \<not> (\<bar>S_row_sum (vals A) js\<bar> / max SMALLREAL \<bar>diag ! i\<bar> > max_row_sum \<and> max_row_sum < 1) \<and>
      \<not> vals A ! p \<ge> epsilon_str * S_row_scale (vals A) js)"

definition kept_pos :: "int list \<Rightarrow> nat list \<Rightarrow> nat \<Rightarrow> nat list" where
  "kept_pos M ia i = filter (\<lambda>j. M ! j > - 1) [ia ! i ..< ia ! Suc i]"

text \<open>Two small matrices: a 1D Laplacian stencil on three points and a variant.\<close>

definition A3 :: dCSRmat where
  "A3 = \<lparr> row = 3, col = 3, nnz = 7, IA = [0, 2, 5, 7], JA = [0, 1, 0, 1, 2, 1, 2],
          val = Some [2, - 1, - 1, 2, - 1, - 1, 2] \<rparr>"

definition A3b :: dCSRmat where
  "A3b = \<lparr> row = 3, col = 3, nnz = 7, IA = [0, 2, 5, 7], JA = [0, 1, 0, 1, 2, 1, 2],
           val = Some [2, - 1, - 2, 4, - 1, - 1, 2] \<rparr>"

section \<open>Truncation of the interpolation operator\<close>

text \<open>
  The pass ``Truncation of interpolation'' that ends \<open>interp_RS\<close> and \<open>interp_STD\<close>
  (the two copies are the same code up to the names of the arrays). For every row:
  \<^verbatim>\<open>
  for (j=P.IA[i];j<P.IA[i+1];++j) {
      if (P.val[j]<0) { mSum+=P.val[j]; if (P.val[j]<mMin) mMin=P.val[j]; }
      if (P.val[j]>0) { pSum+=P.val[j]; if (P.val[j]>pMax) pMax=P.val[j]; }
  }
  for (j=P.IA[i];j<P.IA[i+1];++j) {
      if (P.val[j]<0) { if (P.val[j]>mMin*epsilon_tr) mTruncCount++; else num_lost--; }
      if (P.val[j]>0) { if (P.val[j]<pMax*epsilon_tr) pTruncCount++; else num_lost--; }
  }
  for (j=P.IA[i];j<P.IA[i+1];++j) {
      if (P.val[j]<0) { if (!(P.val[j]>mMin*epsilon_tr)) {
          Ptr->JA[index1]=P.JA[j]; mTruncedSum+=P.val[j]; index1++; } }
      if (P.val[j]>0) { if (!(P.val[j]<pMax*epsilon_tr)) {
          Ptr->JA[index1]=P.JA[j]; pTruncedSum+=P.val[j]; index1++; } }
  }
  for (j=P.IA[i];j<P.IA[i+1];++j) {
      if (P.val[j]<0) { if (!(P.val[j]>mMin*epsilon_tr)) {
          Ptr->val[index2]=P.val[j]/mTruncedSum*mSum; index2++; } }
      if (P.val[j]>0) { if (!(P.val[j]<pMax*epsilon_tr)) {
          Ptr->val[index2]=P.val[j]/pTruncedSum*pSum; index2++; } }
  }
  \<close>
\<close>

text \<open>
  First loop over a row: the most negative entry \<open>mMin\<close>, the largest positive entry
  \<open>pMax\<close> (both start at 0) and the sums \<open>mSum\<close>, \<open>pSum\<close> of the negative and of the
  positive entries.
\<close>

definition trunc_scan :: "real \<Rightarrow> real \<times> real \<times> real \<times> real \<Rightarrow> real \<times> real \<times> real \<times> real" where
  "trunc_scan v = (\<lambda>(mMin, pMax, mSum, pSum).
     let (mSum, mMin) = (if v < 0 then (mSum + v, if v < mMin then v else mMin) else (mSum, mMin));
         (pSum, pMax) = (if v > 0 then (pSum + v, if v > pMax then v else pMax) else (pSum, pMax))
     in (mMin, pMax, mSum, pSum))"

text \<open>
  Second loop: \<open>num_lost\<close> is decremented for every entry that survives (the counters
  \<open>mTruncCount\<close> and \<open>pTruncCount\<close> of the source are never read and are left out).
\<close>

definition trunc_count :: "real \<Rightarrow> real \<Rightarrow> real \<Rightarrow> real \<Rightarrow> int \<Rightarrow> int" where
  "trunc_count epsilon_tr mMin pMax v num_lost =
     (let num_lost = (if v < 0 then (if v > mMin * epsilon_tr then num_lost else num_lost - 1) else num_lost);
          num_lost = (if v > 0 then (if v < pMax * epsilon_tr then num_lost else num_lost - 1) else num_lost)
      in num_lost)"

text \<open>
  Third loop (``step 2''): the column index of every surviving entry is written at
  \<open>index1++\<close>, and the surviving entries are summed by sign. The output arrays are
  written at consecutive positions from 0 on and cut to the number of entries written,
  which is modelled by appending.
\<close>

definition trunc_pattern :: "real \<Rightarrow> real \<Rightarrow> real \<Rightarrow> nat \<times> real \<Rightarrow> nat list \<times> real \<times> real \<Rightarrow> nat list \<times> real \<times> real" where
  "trunc_pattern epsilon_tr mMin pMax = (\<lambda>(c, v) (ja, mTruncedSum, pTruncedSum).
     let (ja, mTruncedSum) = (if v < 0 \<and> \<not> v > mMin * epsilon_tr then (ja @ [c], mTruncedSum + v) else (ja, mTruncedSum));
         (ja, pTruncedSum) = (if v > 0 \<and> \<not> v < pMax * epsilon_tr then (ja @ [c], pTruncedSum + v) else (ja, pTruncedSum))
     in (ja, mTruncedSum, pTruncedSum))"

text \<open>Fourth loop (``step 3''): the rescaled surviving values are written at \<open>index2++\<close>.\<close>

definition trunc_fill :: "real \<Rightarrow> real \<Rightarrow> real \<Rightarrow> real \<Rightarrow> real \<Rightarrow> real \<Rightarrow> real \<Rightarrow> real \<Rightarrow> real list \<Rightarrow> real list" where
  "trunc_fill epsilon_tr mMin pMax mSum pSum mTruncedSum pTruncedSum v a =
     (let a = (if v < 0 \<and> \<not> v > mMin * epsilon_tr then a @ [v / mTruncedSum * mSum] else a);
          a = (if v > 0 \<and> \<not> v < pMax * epsilon_tr then a @ [v / pTruncedSum * pSum] else a)
      in a)"

text \<open>
  One iteration of the loop over the rows. \<open>Ptr->IA[i] -= num_lost\<close> acts on a freshly
  zeroed array.
\<close>

definition trunc_row :: "real \<Rightarrow> dCSRmat \<Rightarrow> nat \<Rightarrow> nat list \<times> nat list \<times> real list \<times> int \<Rightarrow> nat list \<times> nat list \<times> real list \<times> int" where
  "trunc_row epsilon_tr P i = (\<lambda>(ia, ja, a, num_lost).
     let js = [IA P ! i ..< IA P ! Suc i];
         ia = ia[i := nat (int (ia ! i) - num_lost)];
         (mMin, pMax, mSum, pSum) = fold (\<lambda>j. trunc_scan (vals P ! j)) js (0, 0, 0, 0);
         num_lost = fold (\<lambda>j. trunc_count epsilon_tr mMin pMax (vals P ! j)) js num_lost;
         (ja, mTruncedSum, pTruncedSum) =
            fold (\<lambda>j. trunc_pattern epsilon_tr mMin pMax (JA P ! j, vals P ! j)) js (ja, 0, 0);
         a = fold (\<lambda>j. trunc_fill epsilon_tr mMin pMax mSum pSum mTruncedSum pTruncedSum (vals P ! j)) js a
     in (ia, ja, a, num_lost))"

text \<open>The whole pass, from the operator before truncation to the truncated one.\<close>

definition truncate_P :: "real \<Rightarrow> dCSRmat \<Rightarrow> dCSRmat" where
  "truncate_P epsilon_tr P =
     (let (ia, ja, a, num_lost) =
            fold (trunc_row epsilon_tr P) [0 ..< row P] (replicate (row P + 1) 0, [], [], 0);
          ia = ia[row P := nat (int (ia ! row P) - num_lost)]
      in \<lparr> row = row P, col = col P, nnz = ia ! row P, IA = ia, JA = ja, val = Some a \<rparr>)"

text \<open>The sum of the negative and of the positive entries of a row.\<close>

definition neg_sum :: "real list \<Rightarrow> real" where
  "neg_sum vs = sum_list (filter (\<lambda>v. v < 0) vs)"
definition pos_sum :: "real list \<Rightarrow> real" where
  "pos_sum vs = sum_list (filter (\<lambda>v. v > 0) vs)"

text \<open>A small operator with two rows, used to run the pass.\<close>

definition P1 :: dCSRmat where
  "P1 = \<lparr> row = 2, col = 3, nnz = 5, IA = [0, 3, 5], JA = [0, 1, 2, 0, 2],
          val = Some [- 1, - 1 / 10, 1 / 2, 1, - 3] \<rparr>"

subsection \<open>Notions used to describe the result of the pass\<close>

text \<open>
  The extremes as folds, the two survival tests, the values written for one row and the
  offset at which a row starts in the output.
\<close>

definition minneg :: "real list \<Rightarrow> real \<Rightarrow> real" where
  "minneg vs m = fold (\<lambda>v m. if v < 0 \<and> v < m then v else m) vs m"
definition maxpos :: "real list \<Rightarrow> real \<Rightarrow> real" where
  "maxpos vs p = fold (\<lambda>v p. if v > 0 \<and> v > p then v else p) vs p"

definition keepm :: "real \<Rightarrow> real \<Rightarrow> real \<Rightarrow> bool" where
  "keepm epsilon_tr mMin v \<longleftrightarrow> v < 0 \<and> \<not> v > mMin * epsilon_tr"
definition keepp :: "real \<Rightarrow> real \<Rightarrow> real \<Rightarrow> bool" where
  "keepp epsilon_tr pMax v \<longleftrightarrow> v > 0 \<and> \<not> v < pMax * epsilon_tr"

definition trunc_keep :: "real \<Rightarrow> real list \<Rightarrow> real \<Rightarrow> bool" where
  "trunc_keep e vs v \<longleftrightarrow> keepm e (minneg vs 0) v \<or> keepp e (maxpos vs 0) v"

definition trunc_out :: "real \<Rightarrow> real list \<Rightarrow> real list" where
  "trunc_out e vs =
     map (\<lambda>v. if v < 0 then v / sum_list (filter (keepm e (minneg vs 0)) vs) * neg_sum vs
              else v / sum_list (filter (keepp e (maxpos vs 0)) vs) * pos_sum vs)
         (filter (trunc_keep e vs) vs)"

definition trunc_offset :: "real \<Rightarrow> dCSRmat \<Rightarrow> nat \<Rightarrow> nat" where
  "trunc_offset e P i = length (concat (map (\<lambda>r. trunc_out e (row_vals P r)) [0 ..< i]))"

section \<open>C/F splitting: \<open>form_coarse_level\<close>\<close>

subsection \<open>The bucket list\<close>

text \<open>
  Modelled from the spec: \<open>linklist.inl\<close> (the type \<open>LinkList\<close> and the functions
  \<open>enter_list\<close> and \<open>remove_node\<close>) is not among the sources. The specification
  describes a bucket priority queue keyed by the measure, from which the vertex of
  maximal measure is extracted, the first one entered into its bucket winning a tie. The
  queue is the list of the (measure, vertex) nodes in the order of their insertion;
  \<open>LoL_head->head\<close> is the vertex of the first node of maximal measure.
\<close>

type_synonym LinkList = "(int \<times> nat) list"

definition enter_list :: "LinkList \<Rightarrow> int \<Rightarrow> nat \<Rightarrow> LinkList" where
  "enter_list LoL meas index = LoL @ [(meas, index)]"

definition remove_node :: "LinkList \<Rightarrow> int \<Rightarrow> nat \<Rightarrow> LinkList" where
  "remove_node LoL meas index = remove1 (meas, index) LoL"

definition first_max :: "LinkList \<Rightarrow> int \<times> nat \<Rightarrow> int \<times> nat" where
  "first_max LoL best = fold (\<lambda>n b. if fst n > fst b then n else b) LoL best"

definition LoL_head :: "LinkList \<Rightarrow> nat option" where
  "LoL_head LoL = (case LoL of [] \<Rightarrow> None | n # ns \<Rightarrow> Some (snd (first_max ns n)))"

subsection \<open>Phase one\<close>

text \<open>
  The state of phase one: the labels, the measures, the queue, the number of undecided
  vertices and the number of coarse vertices. \<open>num_left\<close> is an \<open>unsigned INT\<close>: it is
  incremented at most \<open>row\<close> times, which is an \<open>INT\<close>, so the increment does not wrap;
  decrementing 0 gives \<open>2^32 - 1\<close>.
\<close>

record cf_state =
  vec :: "int list"
  lambda :: "int list"
  LoL :: LinkList
  num_left :: nat
  ncol :: int

definition dec_unsigned :: "nat \<Rightarrow> nat" where
  "dec_unsigned n = (if n = 0 then 4294967295 else n - 1)"

text \<open>
  Step 2 of the source: a vertex whose row of \<open>A\<close> has at most one entry is isolated.
  \<^verbatim>\<open>
  if ( (ia[i+1]-ia[i])<=1 ) { vec[i]=ISPT; lambda[i]=0; }
  else { vec[i]=UNPT; num_left++; }
  \<close>
\<close>

definition cf_init_vertex :: "nat list \<Rightarrow> nat \<Rightarrow> cf_state \<Rightarrow> cf_state" where
  "cf_init_vertex ia i st =
     (if int (ia ! Suc i) - int (ia ! i) \<le> 1
      then st\<lparr> vec := (vec st)[i := ISPT], lambda := (lambda st)[i := 0] \<rparr>
      else st\<lparr> vec := (vec st)[i := UNPT], num_left := num_left st + 1 \<rparr>)"

text \<open>
  Step 3: a vertex that is not isolated enters the queue when its measure is positive,
  and becomes fine otherwise; in that case the measures of its strong neighbours grow.
  \<^verbatim>\<open>
  for (k=S->IA[i];k<S->IA[i+1];++k) {
      j=S->JA[k];
      if (vec[j]!=ISPT) {
          if (j<i) {
              new_meas=lambda[j];
              if (new_meas>0) remove_node(&LoL_head, &LoL_tail, new_meas, j, lists, where);
              new_meas= ++(lambda[j]);
              enter_list(&LoL_head, &LoL_tail,  new_meas, j, lists, where);
          }
          else new_meas= ++(lambda[j]);
      }
  }
  --num_left;
  \<close>
\<close>

definition cf_bump_early :: "nat \<Rightarrow> nat \<Rightarrow> cf_state \<Rightarrow> cf_state" where
  "cf_bump_early i j st =
     (if vec st ! j \<noteq> ISPT
      then (if j < i
            then let new_meas = lambda st ! j;
                     q = (if new_meas > 0 then remove_node (LoL st) new_meas j else LoL st);
                     new_meas = lambda st ! j + 1
                 in st\<lparr> lambda := (lambda st)[j := new_meas], LoL := enter_list q new_meas j \<rparr>
            else st\<lparr> lambda := (lambda st)[j := lambda st ! j + 1] \<rparr>)
      else st)"

definition cf_filter_vertex :: "iCSRmat \<Rightarrow> nat \<Rightarrow> cf_state \<Rightarrow> cf_state" where
  "cf_filter_vertex S i st =
     (let meas = lambda st ! i in
      if vec st ! i \<noteq> ISPT
      then (if meas > 0
            then st\<lparr> LoL := enter_list (LoL st) (lambda st ! i) i \<rparr>
            else let st = st\<lparr> vec := (vec st)[i := FGPT] \<rparr>;
                     st = fold (cf_bump_early i) (row_cols S i) st
                 in st\<lparr> num_left := dec_unsigned (num_left st) \<rparr>)
      else st)"

text \<open>
  The main loop. When a vertex \<open>j\<close> becomes fine, the measure of each of its undecided
  strong neighbours grows by one:
  \<^verbatim>\<open>
  for (l=S->IA[j];l<S->IA[j+1];l++) {
      k=S->JA[l];
      if (vec[k]==UNPT) {
          remove_node(&LoL_head, &LoL_tail, lambda[k], k, lists, where);
          new_meas= ++(lambda[k]);
          enter_list(&LoL_head, &LoL_tail,new_meas, k, lists, where);
      }
  }
  \<close>
\<close>

definition cf_bump :: "nat \<Rightarrow> cf_state \<Rightarrow> cf_state" where
  "cf_bump k st =
     (if vec st ! k = UNPT
      then let q = remove_node (LoL st) (lambda st ! k) k;
               new_meas = lambda st ! k + 1
           in st\<lparr> lambda := (lambda st)[k := new_meas], LoL := enter_list q new_meas k \<rparr>
      else st)"

text \<open>The first inner loop, over the vertices \<open>j\<close> that strongly depend on \<open>maxnode\<close>.\<close>

definition cf_make_fine :: "iCSRmat \<Rightarrow> nat \<Rightarrow> cf_state \<Rightarrow> cf_state" where
  "cf_make_fine S j st =
     (if vec st ! j = UNPT
      then let st = st\<lparr> vec := (vec st)[j := FGPT],
                       LoL := remove_node (LoL st) (lambda st ! j) j,
                       num_left := dec_unsigned (num_left st) \<rparr>
           in fold cf_bump (row_cols S j) st
      else st)"

text \<open>The second inner loop, over the vertices \<open>j\<close> on which \<open>maxnode\<close> strongly depends.\<close>

definition cf_lower :: "iCSRmat \<Rightarrow> nat \<Rightarrow> cf_state \<Rightarrow> cf_state" where
  "cf_lower S j st =
     (if vec st ! j = UNPT
      then let meas = lambda st ! j;
               q = remove_node (LoL st) meas j;
               meas = meas - 1;
               st = st\<lparr> lambda := (lambda st)[j := meas], LoL := q \<rparr>
           in if meas > 0
              then st\<lparr> LoL := enter_list (LoL st) meas j \<rparr>
              else let st = st\<lparr> vec := (vec st)[j := FGPT],
                               num_left := dec_unsigned (num_left st) \<rparr>
                   in fold cf_bump (row_cols S j) st
      else st)"

text \<open>
  One iteration of \<open>while (num_left>0)\<close>, for the vertex \<open>maxnode = LoL_head->head\<close>.
\<close>

definition cf_pick :: "iCSRmat \<Rightarrow> iCSRmat \<Rightarrow> nat \<Rightarrow> cf_state \<Rightarrow> cf_state" where
  "cf_pick S ST maxnode st =
     (let maxlambda = lambda st ! maxnode;
          st = st\<lparr> vec := (vec st)[maxnode := CGPT],
                   lambda := (lambda st)[maxnode := 0],
                   num_left := dec_unsigned (num_left st),
                   LoL := remove_node (LoL st) maxlambda maxnode,
                   ncol := ncol st + 1 \<rparr>;
          st = fold (cf_make_fine S) (row_cols ST maxnode) st
      in fold (cf_lower S) (row_cols S maxnode) st)"

text \<open>
  The loop itself. Reading \<open>LoL_head->head\<close> of an empty queue dereferences \<open>NULL\<close>; the
  model has no result then, as when the loop does not end.
\<close>

partial_function (option) cf_main_loop :: "iCSRmat \<Rightarrow> iCSRmat \<Rightarrow> cf_state \<Rightarrow> cf_state option" where
  "cf_main_loop S ST st =
     (if num_left st > 0
      then (case LoL_head (LoL st) of
              None \<Rightarrow> None
            | Some maxnode \<Rightarrow> cf_main_loop S ST (cf_pick S ST maxnode st))
      else Some st)"

declare cf_main_loop.simps [code]

definition cf_phase_one :: "dCSRmat \<Rightarrow> iCSRmat \<Rightarrow> int list \<Rightarrow> nat \<Rightarrow> cf_state option" where
  "cf_phase_one A S vertices nrow =
     (let ST = fasp_icsr_trans S;
          lam = map (\<lambda>i. int (IA ST ! Suc i) - int (IA ST ! i)) [0 ..< nrow];
          st = \<lparr> vec = vertices, lambda = lam, LoL = [], num_left = 0, ncol = 0 \<rparr>;
          st = fold (cf_init_vertex (IA A)) [0 ..< nrow] st;
          st = fold (cf_filter_vertex S) [0 ..< nrow] st
      in cf_main_loop S ST st)"

subsection \<open>Phase two\<close>

text \<open>
  The second pass over the fine vertices, run when the interpolation is not the standard
  one:
  \<^verbatim>\<open>
  for (i=0; i < row; ++i) {
      if (ci_tilde_mark |= i) ci_tilde = -1;
      if (vec[i] == FGPT) {
          for (ji = S->IA[i]; ji < S->IA[i+1]; ++ji) {
              j = S->JA[ji];
              if (vec[j] == CGPT) graph_array[j] = i;
          }
          for (ji = S->IA[i]; ji < S->IA[i+1]; ++ji) {
              j = S->JA[ji];
              if (vec[j] == FGPT) {
                  set_empty = 1;
                  for (jj = S->IA[j]; jj < S->IA[j+1]; ++jj) {
                      index = S->JA[jj];
                      if (graph_array[index] == i) { set_empty = 0; break; }
                  }
                  if (set_empty) {
                      if (C_i_nonempty) {
                          vec[i] = CGPT; col++;
                          if (ci_tilde > -1) { vec[ci_tilde] = FGPT; col--; ci_tilde = -1; }
                          C_i_nonempty = 0;
                          break;
                      }
                      else {
                          ci_tilde = j; ci_tilde_mark = i;
                          vec[j] = CGPT; col++;
                          C_i_nonempty = 1;
                          i--;
                          break;
                      }
                  }
              }
          }
      }
  }
  \<close>
  The condition of the first statement is the assignment \<open>ci_tilde_mark |= i\<close>. The
  labels change only right before a \<open>break\<close>, so the second loop over \<open>ji\<close> is the search
  for the first fine neighbour \<open>j\<close> with \<open>set_empty\<close>.
\<close>

record cf2_state =
  vec2 :: "int list"
  col2 :: int
  ci_tilde :: int
  ci_tilde_mark :: int
  C_i_nonempty :: bool
  graph_array :: "int list"

definition cf2_mark_coarse :: "int list \<Rightarrow> nat \<Rightarrow> nat \<Rightarrow> int list \<Rightarrow> int list" where
  "cf2_mark_coarse v i j ga = (if v ! j = CGPT then ga[j := int i] else ga)"

definition set_empty :: "iCSRmat \<Rightarrow> int list \<Rightarrow> nat \<Rightarrow> nat \<Rightarrow> bool" where
  "set_empty S ga i j \<longleftrightarrow> list_all (\<lambda>index. ga ! index \<noteq> int i) (row_cols S j)"

text \<open>
  One pass of the loop body for the vertex \<open>i\<close>; the second component tells whether the
  body ended with \<open>i--\<close>, i.e. whether the same vertex is visited again.
\<close>

definition cf2_visit :: "iCSRmat \<Rightarrow> nat \<Rightarrow> cf2_state \<Rightarrow> cf2_state \<times> bool" where
  "cf2_visit S i st =
     (let mark = ci_tilde_mark st OR int i;
          st = st\<lparr> ci_tilde_mark := mark \<rparr>;
          st = (if mark \<noteq> 0 then st\<lparr> ci_tilde := - 1 \<rparr> else st)
      in if vec2 st ! i = FGPT
         then let ga = fold (cf2_mark_coarse (vec2 st) i) (row_cols S i) (graph_array st);
                  st = st\<lparr> graph_array := ga \<rparr>
              in (case find (\<lambda>j. vec2 st ! j = FGPT \<and> set_empty S ga i j) (row_cols S i) of
                    None \<Rightarrow> (st, False)
                  | Some j \<Rightarrow>
                      if C_i_nonempty st
                      then let st = st\<lparr> vec2 := (vec2 st)[i := CGPT], col2 := col2 st + 1 \<rparr>;
                               st = (if ci_tilde st > - 1
                                     then st\<lparr> vec2 := (vec2 st)[nat (ci_tilde st) := FGPT],
                                              col2 := col2 st - 1, ci_tilde := - 1 \<rparr>
                                     else st)
                           in (st\<lparr> C_i_nonempty := False \<rparr>, False)
                      else (st\<lparr> ci_tilde := int j, ci_tilde_mark := int i,
                                vec2 := (vec2 st)[j := CGPT], col2 := col2 st + 1,
                                C_i_nonempty := True \<rparr>, True))
         else (st, False))"

function cf_phase_two :: "iCSRmat \<Rightarrow> nat \<Rightarrow> cf2_state \<Rightarrow> nat \<Rightarrow> cf2_state" where
  "cf_phase_two S nrow st i =
     (if i < nrow
      then (case cf2_visit S i st of
              (st', again) \<Rightarrow>
                if again then cf_phase_two S nrow st' i
                else cf_phase_two S nrow st' (Suc i))
      else st)"
  by pat_completeness auto
termination
  by (relation "measure (\<lambda>(S, nrow, st, i). 2 * (nrow - i) + (if C_i_nonempty st then 0 else 1))")
     (auto simp: cf2_visit_def Let_def split: if_splits option.splits)

text \<open>
  \<open>form_coarse_level\<close>: phase one, then phase two unless the standard interpolation is
  selected. The code of \<open>INTERP_STD\<close> is defined in a header that is not part of the
  sources at hand; it is a parameter. The result is the labelling and the number of
  coarse vertices.
\<close>

definition form_coarse_level ::
  "int \<Rightarrow> dCSRmat \<Rightarrow> iCSRmat \<Rightarrow> int list \<Rightarrow> nat \<Rightarrow> int \<Rightarrow> (int list \<times> int) option" where
  "form_coarse_level INTERP_STD A S vertices nrow interp_type =
     (case cf_phase_one A S vertices nrow of
        None \<Rightarrow> None
      | Some st \<Rightarrow>
          if interp_type \<noteq> INTERP_STD
          then let st2 = cf_phase_two S nrow
                           \<lparr> vec2 = vec st, col2 = ncol st, ci_tilde = - 1, ci_tilde_mark = - 1,
                             C_i_nonempty = False, graph_array = replicate nrow (- 1) \<rparr> 0
               in Some (vec2 st2, col2 st2)
          else Some (vec st, ncol st))"

text \<open>
  The coverage property in the words of the specification: a coarse vertex is reachable
  from \<open>k\<close> within two hops of the strength graph.
\<close>

definition two_hop_coarse :: "iCSRmat \<Rightarrow> int list \<Rightarrow> nat \<Rightarrow> bool" where
  "two_hop_coarse S v k \<longleftrightarrow>
     list_ex (\<lambda>j. v ! j = CGPT \<or> list_ex (\<lambda>c. v ! c = CGPT) (row_cols S j)) (row_cols S k)"

definition one_hop_coarse :: "iCSRmat \<Rightarrow> int list \<Rightarrow> nat \<Rightarrow> bool" where
  "one_hop_coarse S v k \<longleftrightarrow> list_ex (\<lambda>c. v ! c = CGPT) (row_cols S k)"

text \<open>
  The condition that phase two establishes for a fine vertex \<open>k\<close>: each fine strong
  neighbour of \<open>k\<close> shares a coarse strong neighbour with \<open>k\<close>.
\<close>

definition covered :: "iCSRmat \<Rightarrow> int list \<Rightarrow> nat \<Rightarrow> bool" where
  "covered S v k \<longleftrightarrow>
     (\<forall>j \<in> set (row_cols S k). v ! j = FGPT \<longrightarrow>
        (\<exists>c \<in> set (row_cols S k) \<inter> set (row_cols S j). v ! c = CGPT))"

text \<open>The strong neighbours of the first \<open>n\<close> vertices are among these vertices.\<close>

definition cols_ok :: "iCSRmat \<Rightarrow> nat \<Rightarrow> bool" where
  "cols_ok S n \<longleftrightarrow> list_all (\<lambda>k. list_all (\<lambda>j. j < n) (row_cols S k)) [0 ..< n]"

text \<open>The invariant of the loop of phase two, before the vertex \<open>i\<close> is visited.\<close>

definition cf2_inv :: "iCSRmat \<Rightarrow> nat \<Rightarrow> cf2_state \<Rightarrow> nat \<Rightarrow> bool" where
  "cf2_inv S n st i \<longleftrightarrow>
     n \<le> length (vec2 st) \<and> length (graph_array st) = n \<and>
     (\<forall>k < i. vec2 st ! k = FGPT \<longrightarrow> covered S (vec2 st) k) \<and>
     (\<forall>x < n. graph_array st ! x < int i \<or>
        (graph_array st ! x = int i \<and> x \<in> set (row_cols S i) \<and> vec2 st ! x = CGPT)) \<and>
     (ci_tilde st > - 1 \<longrightarrow> nat (ci_tilde st) < n \<and> vec2 st ! nat (ci_tilde st) = CGPT)"

text \<open>
  A matrix on three vertices: vertex 0 has a positive coupling only (no strong
  neighbour, and no vertex depends on it), vertices 1 and 2 are strongly coupled.
\<close>

definition A_cov :: dCSRmat where
  "A_cov = \<lparr> row = 3, col = 3, nnz = 6, IA = [0, 2, 4, 6], JA = [0, 1, 1, 2, 1, 2],
            val = Some [2, 1, 2, - 1, - 1, 2] \<rparr>"

section \<open>Aggressive coarsening: \<open>form_coarse_level_ag\<close>\<close>

subsection \<open>Strong couplings between the temporary coarse points\<close>

text \<open>
  \<open>generate_S_rs_ag_1\<close> and \<open>generate_S_rs_ag_2\<close> number the coarse points (\<open>cp_index\<close>
  from the coarse numbering to the vertices, \<open>cp_rindex\<close> back) and build \<open>Sh\<close>: row
  \<open>ci\<close> holds the coarse points reached from the coarse point \<open>i = cp_index[ci]\<close>
  directly or through one fine point. They differ in the treatment of a coarse point
  reached through a fine point: path 1 takes it at the first visit, path 2 at the second
  one. The two passes of each function (counting, then filling) run the same tests, so
  one pass gives the rows.
  \<^verbatim>\<open>
  for(j=S->IA[i];j<S->IA[i+1];j++) {
      fj=S->JA[j];
      if(vec[fj]==CGPT&&fj!=i) {
          cj=cp_rindex[fj];
          if(times_visited[cj]!=ci+1) { times_visited[cj]=ci+1; Sh->JA[count]=cj; count++; }
      }
      else if(vec[fj]==FGPT) {
          for(k=S->IA[fj];k<S->IA[fj+1];k++) {
              ck=S->JA[k];
              if(vec[ck]==CGPT&&ck!=i) {
                  cck=cp_rindex[ck];
                  /* path 1 */
                  if(times_visited[cck]!=ci+1) { times_visited[cck]=ci+1; Sh->JA[count]=cck; count++; }
                  /* path 2 */
                  if (times_visited[cck] == ci+1) { }
                  else if (times_visited[cck] == -ci-1) { times_visited[cck]=ci+1; Sh->JA[count]=cck; count++; }
                  else { times_visited[cck]=-ci-1; }
              }
          }
      }
  }
  \<close>
\<close>

definition cp_index_of :: "int list \<Rightarrow> nat \<Rightarrow> nat list" where
  "cp_index_of v n = filter (\<lambda>i. v ! i = CGPT) [0 ..< n]"

definition cp_rindex_of :: "int list \<Rightarrow> nat \<Rightarrow> nat list" where
  "cp_rindex_of v n =
     fst (fold (\<lambda>i (r, j). if v ! i = CGPT then (r[i := j], j + 1) else (r, j)) [0 ..< n]
            (replicate n 0, 0))"

definition Sh_direct :: "nat list \<Rightarrow> nat \<Rightarrow> nat \<Rightarrow> int list \<times> nat list \<Rightarrow> int list \<times> nat list" where
  "Sh_direct cp_rindex ci fj = (\<lambda>(tv, out).
     let cj = cp_rindex ! fj
     in if tv ! cj \<noteq> int ci + 1 then (tv[cj := int ci + 1], out @ [cj]) else (tv, out))"

definition Sh_via_1 :: "int list \<Rightarrow> nat list \<Rightarrow> nat \<Rightarrow> nat \<Rightarrow> nat \<Rightarrow> int list \<times> nat list \<Rightarrow> int list \<times> nat list" where
  "Sh_via_1 v cp_rindex i ci ck = (\<lambda>(tv, out).
     if v ! ck = CGPT \<and> ck \<noteq> i
     then let cck = cp_rindex ! ck
          in if tv ! cck \<noteq> int ci + 1 then (tv[cck := int ci + 1], out @ [cck]) else (tv, out)
     else (tv, out))"

definition Sh_via_2 :: "int list \<Rightarrow> nat list \<Rightarrow> nat \<Rightarrow> nat \<Rightarrow> nat \<Rightarrow> int list \<times> nat list \<Rightarrow> int list \<times> nat list" where
  "Sh_via_2 v cp_rindex i ci ck = (\<lambda>(tv, out).
     if v ! ck = CGPT \<and> ck \<noteq> i
     then let cck = cp_rindex ! ck
          in if tv ! cck = int ci + 1 then (tv, out)
             else if tv ! cck = - int ci - 1 then (tv[cck := int ci + 1], out @ [cck])
             else (tv[cck := - int ci - 1], out)
     else (tv, out))"

definition Sh_neighbour ::
  "bool \<Rightarrow> iCSRmat \<Rightarrow> int list \<Rightarrow> nat list \<Rightarrow> nat \<Rightarrow> nat \<Rightarrow> nat \<Rightarrow> int list \<times> nat list \<Rightarrow> int list \<times> nat list" where
  "Sh_neighbour path2 S v cp_rindex i ci fj st =
     (if v ! fj = CGPT \<and> fj \<noteq> i then Sh_direct cp_rindex ci fj st
      else if v ! fj = FGPT
      then fold (if path2 then Sh_via_2 v cp_rindex i ci else Sh_via_1 v cp_rindex i ci)
             (row_cols S fj) st
      else st)"

definition Sh_row ::
  "bool \<Rightarrow> iCSRmat \<Rightarrow> int list \<Rightarrow> nat list \<Rightarrow> nat list \<Rightarrow> nat \<Rightarrow> int list \<times> nat list list \<Rightarrow> int list \<times> nat list list" where
  "Sh_row path2 S v cp_index cp_rindex ci = (\<lambda>(tv, rows).
     let i = cp_index ! ci;
         (tv, out) = fold (Sh_neighbour path2 S v cp_rindex i ci) (row_cols S i) (tv, [])
     in (tv, rows @ [out]))"

definition csr_of_rows :: "nat \<Rightarrow> nat list list \<Rightarrow> iCSRmat" where
  "csr_of_rows ncols rows =
     \<lparr> row = length rows, col = ncols, nnz = length (concat rows),
       IA = map (\<lambda>i. length (concat (take i rows))) [0 ..< length rows + 1],
       JA = concat rows, val = None \<rparr>"

definition generate_S_rs_ag :: "bool \<Rightarrow> iCSRmat \<Rightarrow> int list \<Rightarrow> nat \<Rightarrow> iCSRmat \<times> nat list" where
  "generate_S_rs_ag path2 S v n =
     (let cp_index = cp_index_of v n;
          cp_rindex = cp_rindex_of v n;
          num_c = length cp_index;
          (tv, rows) = fold (Sh_row path2 S v cp_index cp_rindex) [0 ..< num_c]
                         (replicate num_c 0, [])
      in (csr_of_rows num_c rows, cp_index))"

subsection \<open>The second selection, among the temporary coarse points\<close>

text \<open>
  The state holds the labels of the vertices, the measures of the temporary coarse
  points, the queue of temporary coarse points, \<open>num_left\<close> and \<open>col\<close>. The labels 3
  (real coarse point) and 4 (fake coarse point) are used during this selection only.
\<close>

definition ag_bump_early :: "nat list \<Rightarrow> nat \<Rightarrow> nat \<Rightarrow> cf_state \<Rightarrow> cf_state" where
  "ag_bump_early cp_index ci cj st =
     (let j = cp_index ! cj
      in if vec st ! j \<noteq> ISPT
         then (if cj < ci
               then let new_meas = lambda st ! cj;
                        st = (if new_meas > 0
                              then st\<lparr> LoL := remove_node (LoL st) new_meas cj,
                                       num_left := dec_unsigned (num_left st) \<rparr>
                              else st);
                        new_meas = lambda st ! cj + 1
                    in st\<lparr> lambda := (lambda st)[cj := new_meas],
                           LoL := enter_list (LoL st) new_meas cj,
                           num_left := num_left st + 1 \<rparr>
               else st\<lparr> lambda := (lambda st)[cj := lambda st ! cj + 1] \<rparr>)
         else st)"

definition ag_filter :: "iCSRmat \<Rightarrow> nat list \<Rightarrow> nat \<Rightarrow> cf_state \<Rightarrow> cf_state" where
  "ag_filter Sh cp_index ci st =
     (let i = cp_index ! ci;
          meas = lambda st ! ci
      in if vec st ! i \<noteq> ISPT
         then (if meas > 0
               then st\<lparr> LoL := enter_list (LoL st) (lambda st ! ci) ci,
                        num_left := num_left st + 1 \<rparr>
               else fold (ag_bump_early cp_index ci) (row_cols Sh ci)
                      (st\<lparr> vec := (vec st)[i := FGPT] \<rparr>))
         else st)"

definition ag_bump :: "nat list \<Rightarrow> nat \<Rightarrow> cf_state \<Rightarrow> cf_state" where
  "ag_bump cp_index ck st =
     (let k = cp_index ! ck
      in if vec st ! k = CGPT
         then let q = remove_node (LoL st) (lambda st ! ck) ck;
                  new_meas = lambda st ! ck + 1
              in st\<lparr> lambda := (lambda st)[ck := new_meas], LoL := enter_list q new_meas ck \<rparr>
         else st)"

definition ag_make_fake :: "iCSRmat \<Rightarrow> nat list \<Rightarrow> nat \<Rightarrow> cf_state \<Rightarrow> cf_state" where
  "ag_make_fake Sh cp_index cj st =
     (let j = cp_index ! cj
      in if vec st ! j = CGPT
         then let st = st\<lparr> vec := (vec st)[j := 4],
                          LoL := remove_node (LoL st) (lambda st ! cj) cj,
                          num_left := dec_unsigned (num_left st) \<rparr>
              in fold (ag_bump cp_index) (row_cols Sh cj) st
         else st)"

definition ag_lower :: "iCSRmat \<Rightarrow> nat list \<Rightarrow> nat \<Rightarrow> cf_state \<Rightarrow> cf_state" where
  "ag_lower Sh cp_index cj st =
     (let j = cp_index ! cj
      in if vec st ! j = CGPT
         then let meas = lambda st ! cj;
                  q = remove_node (LoL st) meas cj;
                  meas = meas - 1;
                  st = st\<lparr> lambda := (lambda st)[cj := meas], LoL := q \<rparr>
              in if meas > 0
                 then st\<lparr> LoL := enter_list (LoL st) meas cj \<rparr>
                 else let st = st\<lparr> vec := (vec st)[j := 4],
                                  num_left := dec_unsigned (num_left st) \<rparr>
                      in fold (ag_bump cp_index) (row_cols Sh cj) st
         else st)"

definition ag_pick :: "iCSRmat \<Rightarrow> iCSRmat \<Rightarrow> nat list \<Rightarrow> nat \<Rightarrow> cf_state \<Rightarrow> cf_state" where
  "ag_pick Sh ShT cp_index maxnode st =
     (let maxlambda = lambda st ! maxnode;
          st = st\<lparr> vec := (vec st)[cp_index ! maxnode := 3],
                   num_left := dec_unsigned (num_left st),
                   LoL := remove_node (LoL st) maxlambda maxnode,
                   lambda := (lambda st)[maxnode := 0],
                   ncol := ncol st + 1 \<rparr>;
          st = fold (ag_make_fake Sh cp_index) (row_cols ShT maxnode) st
      in fold (ag_lower Sh cp_index) (row_cols Sh maxnode) st)"

partial_function (option) ag_main_loop ::
  "iCSRmat \<Rightarrow> iCSRmat \<Rightarrow> nat list \<Rightarrow> cf_state \<Rightarrow> cf_state option" where
  "ag_main_loop Sh ShT cp_index st =
     (if num_left st > 0
      then (case LoL_head (LoL st) of
              None \<Rightarrow> None
            | Some maxnode \<Rightarrow> ag_main_loop Sh ShT cp_index (ag_pick Sh ShT cp_index maxnode st))
      else Some st)"

declare ag_main_loop.simps [code]

text \<open>
  The labels are put in order (temporary and fake coarse points become fine, the real
  ones coarse), and phase three makes coarse every fine vertex without a coarse vertex
  within two hops:
  \<^verbatim>\<open>
  if (vec[i]==FGPT) {
      flag=0;
      for (j=S->IA[i]; j<S->IA[i+1]; j++) {
          k=S->JA[j];
          if (flag==1) break;
          else if(vec[k]==CGPT) { flag=1; break; }
          else if(vec[k]==FGPT) {
              for (l=S->IA[k]; l<S->IA[k+1]; l++) {
                  m=S->JA[l];
                  if (vec[m]==CGPT) { flag=1; break; }
              }
          }
      }
      if (flag==0) { vec[i]=CGPT; col++; }
  }
  \<close>
\<close>

definition ag_relabel :: "nat \<Rightarrow> int list \<Rightarrow> int list" where
  "ag_relabel n v =
     (let v = fold (\<lambda>i v. if v ! i = CGPT \<or> v ! i = 4 then v[i := FGPT] else v) [0 ..< n] v
      in fold (\<lambda>i v. if v ! i = 3 then v[i := CGPT] else v) [0 ..< n] v)"

definition ag_flag :: "iCSRmat \<Rightarrow> int list \<Rightarrow> nat \<Rightarrow> bool" where
  "ag_flag S v i \<longleftrightarrow>
     list_ex (\<lambda>k. v ! k = CGPT \<or> (v ! k = FGPT \<and> list_ex (\<lambda>m. v ! m = CGPT) (row_cols S k)))
       (row_cols S i)"

definition ag_phase_three :: "iCSRmat \<Rightarrow> nat \<Rightarrow> int list \<times> int \<Rightarrow> int list \<times> int" where
  "ag_phase_three S i = (\<lambda>(v, c).
     if v ! i = FGPT \<and> \<not> ag_flag S v i then (v[i := CGPT], c + 1) else (v, c))"

text \<open>
  \<open>form_coarse_level_ag\<close>. The measures live in a zeroed work array of length \<open>row\<close>
  and are set for the \<open>num_c\<close> temporary coarse points, \<open>num_c\<close> being the result of
  \<open>form_coarse_level\<close>.
\<close>

definition form_coarse_level_ag ::
  "int \<Rightarrow> dCSRmat \<Rightarrow> iCSRmat \<Rightarrow> int list \<Rightarrow> nat \<Rightarrow> int \<Rightarrow> int \<Rightarrow> (int list \<times> int) option" where
  "form_coarse_level_ag INTERP_STD A S vertices nrow interp_type aggressive_path =
     (case form_coarse_level INTERP_STD A S vertices nrow interp_type of
        None \<Rightarrow> None
      | Some (v, num_c) \<Rightarrow>
          let (Sh, cp_index) = generate_S_rs_ag (\<not> aggressive_path < 2) S v (row A);
              ShT = fasp_icsr_trans Sh;
              lam = fold (\<lambda>ci l. l[ci := int (IA ShT ! Suc ci) - int (IA ShT ! ci)])
                      [0 ..< nat num_c] (replicate nrow 0);
              st = \<lparr> vec = v, lambda = lam, LoL = [], num_left = 0, ncol = 0 \<rparr>;
              st = fold (ag_filter Sh cp_index) [0 ..< nat num_c] st
          in (case ag_main_loop Sh ShT cp_index st of
                None \<Rightarrow> None
              | Some st \<Rightarrow>
                  Some (fold (ag_phase_three S) [0 ..< nrow] (ag_relabel nrow (vec st), ncol st))))"

section \<open>Sparsity pattern of the interpolation\<close>

text \<open>
  \<open>generate_sparsity_P\<close>: a coarse vertex has itself in its row, an isolated one
  nothing, and a fine vertex its coarse strong neighbours. The column array is filled
  at consecutive positions; the values are zeroed.
\<close>

definition P_row :: "iCSRmat \<Rightarrow> int list \<Rightarrow> nat \<Rightarrow> nat list" where
  "P_row S v i =
     (if v ! i = FGPT then filter (\<lambda>k. v ! k = CGPT) (row_cols S i)
      else if v ! i = ISPT then []
      else [i])"

definition dcsr_of_rows :: "nat \<Rightarrow> nat list list \<Rightarrow> dCSRmat" where
  "dcsr_of_rows ncols rows =
     \<lparr> row = length rows, col = ncols, nnz = length (concat rows),
       IA = map (\<lambda>i. length (concat (take i rows))) [0 ..< length rows + 1],
       JA = concat rows, val = Some (replicate (length (concat rows)) 0) \<rparr>"

definition generate_sparsity_P :: "iCSRmat \<Rightarrow> int list \<Rightarrow> nat \<Rightarrow> nat \<Rightarrow> dCSRmat" where
  "generate_sparsity_P S v nrow ncols = dcsr_of_rows ncols (map (P_row S v) [0 ..< nrow])"

text \<open>
  \<open>generate_sparsity_P_std\<close>: a fine vertex has in its row its coarse strong neighbours
  and the coarse strong neighbours of its fine strong neighbours, each once
  (\<open>times_visited\<close> records the last row in which a coarse vertex was taken).
\<close>

definition P_std_take :: "int list \<Rightarrow> nat \<Rightarrow> nat \<Rightarrow> int list \<times> nat list \<Rightarrow> int list \<times> nat list" where
  "P_std_take v i h = (\<lambda>(tv, out).
     if v ! h = CGPT
     then (if tv ! h = int i then (tv, out) else (tv[h := int i], out @ [h]))
     else (tv, out))"

definition P_std_neighbour ::
  "iCSRmat \<Rightarrow> int list \<Rightarrow> nat \<Rightarrow> nat \<Rightarrow> int list \<times> nat list \<Rightarrow> int list \<times> nat list" where
  "P_std_neighbour S v i k st =
     (if v ! k = CGPT then P_std_take v i k st
      else if v ! k = FGPT \<and> k \<noteq> i then fold (P_std_take v i) (row_cols S k) st
      else st)"

definition P_std_row ::
  "iCSRmat \<Rightarrow> int list \<Rightarrow> nat \<Rightarrow> int list \<times> nat list list \<Rightarrow> int list \<times> nat list list" where
  "P_std_row S v i = (\<lambda>(tv, rows).
     if v ! i = FGPT
     then let (tv, out) = fold (P_std_neighbour S v i) (row_cols S i) (tv, [])
          in (tv, rows @ [out])
     else if v ! i = ISPT then (tv, rows @ [[]])
     else (tv, rows @ [[i]]))"

definition generate_sparsity_P_std :: "iCSRmat \<Rightarrow> int list \<Rightarrow> nat \<Rightarrow> nat \<Rightarrow> dCSRmat" where
  "generate_sparsity_P_std S v nrow ncols =
     dcsr_of_rows ncols (snd (fold (P_std_row S v) [0 ..< nrow] (replicate nrow (- 1), [])))"

section \<open>Parameters, macros and collaborators of the setup\<close>

text \<open>
  The fields of \<open>AMG_param\<close> that the modelled functions read or write.
\<close>

record AMG_param =
  coarsening_type :: int
  interpolation_type :: int
  strong_threshold :: real
  max_row_sum :: real
  truncation_threshold :: real
  aggressive_level :: int
  aggressive_path :: int
  max_levels :: int
  coarse_dof :: int
  ILU_levels :: int
  cycle_type :: int
  tentative_smooth :: real
  smoother :: int
  presmooth_iter :: int
  postsmooth_iter :: int
  relaxation :: real
  polynomial_degree :: int
  smooth_order :: int
  tol :: real
  print_level :: int

text \<open>
  \<open>messages.h\<close> defines \<open>INTERP_REG\<close>; the other macros that the setup uses are defined
  in no file of the sources and are parameters: the coarsening types \<open>COARSE_RS\<close>,
  \<open>COARSE_AC\<close>, \<open>COARSE_CR\<close>, the interpolation types \<open>INTERP_ENG_MIN\<close>, \<open>INTERP_STD\<close>,
  the error codes \<open>ERROR_AMG_COARSE_TYPE\<close>, \<open>ERROR_AMG_INTERP_TYPE\<close>, the cycle type
  \<open>NL_AMLI_CYCLE\<close> and the real \<open>SMALLREAL\<close>.
\<close>

definition INTERP_REG :: int where "INTERP_REG = 1"

record macros =
  coarse_rs :: int
  coarse_ac :: int
  coarse_cr :: int
  interp_eng_min :: int
  interp_std :: int
  error_amg_coarse_type :: int
  error_amg_interp_type :: int
  nl_amli_cycle :: int
  smallreal :: real

text \<open>
  A \<open>switch\<close> needs pairwise different case labels.
\<close>

definition macros_ok :: "macros \<Rightarrow> bool" where
  "macros_ok mc \<longleftrightarrow>
     distinct [coarse_rs mc, coarse_ac mc, coarse_cr mc] \<and>
     distinct [INTERP_REG, interp_eng_min mc, interp_std mc]"

text \<open>
  Functions that the setup calls and whose computation is left open: compatible
  relaxation coarsening (not among the sources), the values of the energy-minimisation
  interpolation \<open>getiteval\<close> and of the standard interpolation \<open>interp_STD\<close> (local
  linear algebra on the entries), and the ILU factorisation (not among the sources),
  which returns a status and the factorisation data.
\<close>

record 'lu setup_ext =
  fasp_amg_coarsening_cr :: "dCSRmat \<Rightarrow> int list \<Rightarrow> AMG_param \<Rightarrow> int list \<times> int"
  getiteval :: "dCSRmat \<Rightarrow> dCSRmat \<Rightarrow> real list"
  interp_STD :: "dCSRmat \<Rightarrow> int list \<Rightarrow> dCSRmat \<Rightarrow> iCSRmat \<Rightarrow> AMG_param \<Rightarrow> dCSRmat"
  fasp_ilu_dcsr_setup :: "dCSRmat \<Rightarrow> AMG_param \<Rightarrow> int \<times> 'lu"

text \<open>
  A call either returns or ends the program with an exit code.
\<close>

datatype 'a outcome = Returned 'a | Exited int

text \<open>
  Modelled from the spec: \<open>fasp_chkerr\<close> is declared and called but defined in no file
  of the sources. Parameter errors ``are fatal and reported immediately'': the call
  with an error code (a negative status) ends the program with that code, and a call
  with another status returns.
\<close>

definition fasp_chkerr :: "int \<Rightarrow> 'a \<Rightarrow> 'a outcome" where
  "fasp_chkerr status st = (if status < 0 then Exited status else Returned st)"

section \<open>Direct interpolation: \<open>interp_RS\<close>\<close>

text \<open>
  \<open>Ptr\<close> holds the sparsity pattern. For every row, \<open>aii\<close> is the first diagonal entry
  of the row of \<open>A\<close> (the variable keeps its value when the row has none). In a fine
  row the off-diagonal entries of \<open>A\<close> are summed by sign, all of them (\<open>amN\<close>, \<open>apN\<close>)
  and those whose column is in the pattern (\<open>amP\<close>, \<open>apP\<close>):
  \<^verbatim>\<open>
  alpha=amN/amP;
  if(countPplus>0) { beta=apN/apP; }
  else { beta=0; aii+=apN; }
  for(j=P.IA[i];j<P.IA[i+1];++j) {
      k=P.JA[j];
      for(l=A->IA[i];l<A->IA[i+1];l++){ if(A->JA[l]==k) break; }
      if(A->val[l]>0) { P.val[j]=-beta*A->val[l]/aii; }
      else { P.val[j]=-alpha*A->val[l]/aii; }
  }
  \<close>
  The entries are reals here, and a quotient by 0 is 0.
\<close>

definition RS_diag :: "dCSRmat \<Rightarrow> nat \<Rightarrow> nat option" where
  "RS_diag A i = find (\<lambda>j. JA A ! j = i) [IA A ! i ..< IA A ! Suc i]"

definition RS_sums ::
  "dCSRmat \<Rightarrow> dCSRmat \<Rightarrow> nat \<Rightarrow> nat option \<Rightarrow> nat \<Rightarrow> real \<times> real \<times> real \<times> real \<times> int
     \<Rightarrow> real \<times> real \<times> real \<times> real \<times> int" where
  "RS_sums A Ptr i diagindex j = (\<lambda>(amN, amP, apN, apP, countPplus).
     if Some j = diagindex then (amN, amP, apN, apP, countPplus)
     else let found = (JA A ! j \<in> set (row_cols Ptr i));
              a = vals A ! j
          in if a > 0
             then (amN, amP, apN + a, (if found then apP + a else apP),
                   (if found then countPplus + 1 else countPplus))
             else (amN + a, (if found then amP + a else amP), apN, apP, countPplus))"

definition RS_weight :: "dCSRmat \<Rightarrow> nat \<Rightarrow> real \<Rightarrow> real \<Rightarrow> real \<Rightarrow> nat \<Rightarrow> real" where
  "RS_weight A i alpha beta aii k =
     (let l = (case find (\<lambda>l. JA A ! l = k) [IA A ! i ..< IA A ! Suc i] of
                 Some l \<Rightarrow> l | None \<Rightarrow> IA A ! Suc i);
          a = vals A ! l
      in if a > 0 then - beta * a / aii else - alpha * a / aii)"

definition RS_row ::
  "dCSRmat \<Rightarrow> dCSRmat \<Rightarrow> int list \<Rightarrow> nat \<Rightarrow> real \<times> real list \<Rightarrow> real \<times> real list" where
  "RS_row A Ptr v i = (\<lambda>(aii, pval).
     let diagindex = RS_diag A i;
         aii = (case diagindex of Some d \<Rightarrow> vals A ! d | None \<Rightarrow> aii)
     in if v ! i = 0
        then let (amN, amP, apN, apP, countPplus) =
                    fold (RS_sums A Ptr i diagindex) [IA A ! i ..< IA A ! Suc i] (0, 0, 0, 0, 0);
                 alpha = amN / amP;
                 (beta, aii) = (if countPplus > 0 then (apN / apP, aii) else (0, aii + apN))
             in (aii, fold (\<lambda>j pv. pv[j := RS_weight A i alpha beta aii (JA Ptr ! j)])
                        [IA Ptr ! i ..< IA Ptr ! Suc i] pval)
        else if v ! i = 2 then (aii, pval)
        else (aii, pval[IA Ptr ! i := 1]))"

text \<open>
  The columns of the pattern are vertices; \<open>CoarseIndex\<close> numbers the coarse vertices,
  and the columns are renumbered through it before the truncation.
\<close>

definition CoarseIndex :: "int list \<Rightarrow> nat \<Rightarrow> nat list" where
  "CoarseIndex v n =
     fst (fold (\<lambda>i (c, index). if v ! i = 1 then (c[i := index], index + 1) else (c, index))
            [0 ..< n] (replicate n 0, 0))"

definition renumber :: "nat list \<Rightarrow> nat \<Rightarrow> nat list \<Rightarrow> nat list" where
  "renumber c m ja = map (\<lambda>j. c ! j) (take m ja) @ drop m ja"

definition interp_RS :: "dCSRmat \<Rightarrow> int list \<Rightarrow> dCSRmat \<Rightarrow> real \<Rightarrow> dCSRmat" where
  "interp_RS A v Ptr epsilon_tr =
     (let (aii, pval) = fold (RS_row A Ptr v) [0 ..< row A] (0, replicate (nnz Ptr) 0);
          P = \<lparr> row = row Ptr, col = col Ptr, nnz = nnz Ptr,
                IA = take (row Ptr + 1) (IA Ptr),
                JA = renumber (CoarseIndex v (row A)) (IA Ptr ! row Ptr) (take (nnz Ptr) (JA Ptr)),
                val = Some pval \<rparr>
      in truncate_P epsilon_tr P)"

section \<open>Energy-minimisation interpolation: \<open>interp_EM\<close>\<close>

text \<open>
  The columns are renumbered, and \<open>getiteval\<close> writes the values; it writes nothing
  else of \<open>P\<close>.
\<close>

definition interp_EM :: "'lu setup_ext \<Rightarrow> dCSRmat \<Rightarrow> int list \<Rightarrow> dCSRmat \<Rightarrow> dCSRmat" where
  "interp_EM ext A v P =
     (let P = P\<lparr> JA := renumber (CoarseIndex v (length v)) (nnz P) (JA P) \<rparr>
      in P\<lparr> val := Some (getiteval ext A P) \<rparr>)"

section \<open>The choice of the interpolation: \<open>fasp_amg_interp\<close>\<close>

text \<open>
  \<^verbatim>\<open>
  if (coarsening_type == 4) interp_type = INTERP_STD;
  switch (interp_type) {
  case INTERP_REG: // Standard interpolation
      interp_RS(A, vertices, P, param);
      break;
  case INTERP_ENG_MIN: // Energy min interpolation in C
      interp_EM(A, vertices, P, param);
      break;
  case INTERP_STD: // standard interpolation
      interp_STD(A, vertices, P, S, param);
  default:
      fasp_chkerr(ERROR_AMG_INTERP_TYPE, "fasp_amg_interp");
      break;
  }
  if (status==SUCCESS) return status;
  else exit(status);
  \<close>
  No \<open>break\<close> ends the case \<open>INTERP_STD\<close>, so that the statement of \<open>default\<close> runs
  after \<open>interp_STD\<close>. \<open>status\<close> is \<open>SUCCESS\<close> throughout. The result is the status and
  the interpolation.
\<close>

definition fasp_amg_interp ::
  "macros \<Rightarrow> 'lu setup_ext \<Rightarrow> dCSRmat \<Rightarrow> int list \<Rightarrow> dCSRmat \<Rightarrow> iCSRmat \<Rightarrow> AMG_param
     \<Rightarrow> (int \<times> dCSRmat) outcome" where
  "fasp_amg_interp mc ext A vertices P S param =
     (let interp_type = (if coarsening_type param = 4 then interp_std mc
                         else interpolation_type param)
      in if interp_type = INTERP_REG
         then Returned (SUCCESS, interp_RS A vertices P (truncation_threshold param))
         else if interp_type = interp_eng_min mc
         then Returned (SUCCESS, interp_EM ext A vertices P)
         else if interp_type = interp_std mc
         then fasp_chkerr (error_amg_interp_type mc)
                (SUCCESS, interp_STD ext A vertices P S param)
         else fasp_chkerr (error_amg_interp_type mc) (SUCCESS, P))"

text \<open>The interpolation types that the function has a case for.\<close>

definition interp_recognized :: "macros \<Rightarrow> int \<Rightarrow> bool" where
  "interp_recognized mc t \<longleftrightarrow> t = INTERP_REG \<or> t = interp_eng_min mc \<or> t = interp_std mc"

section \<open>Coarsening: \<open>fasp_amg_coarsening_rs\<close>\<close>

text \<open>
  \<^verbatim>\<open>
  switch ( coarsening_type ) {
      case COARSE_RS: generate_S(A, S, param); break;
      case COARSE_AC: interp_type = INTERP_STD; generate_S(A, S, param); break;
      case COARSE_CR: generate_S(A, S, param); break;
      default:
          printf("### ERROR: Coarsening type %d is not recognized!\n", coarsening_type);
          return ERROR_AMG_COARSE_TYPE;
  }
  if ( S->nnz == 0 ) return RUN_FAIL;
  switch ( coarsening_type ) {
      case COARSE_RS: col = form_coarse_level(A, S, vertices, row, interp_type); break;
      case COARSE_AC: col = form_coarse_level_ag(A, S, vertices, row, interp_type, aggressive_path); break;
      case COARSE_CR: col = fasp_amg_coarsening_cr(0, A->row-1, A, vertices, param); break;
  }
  switch ( interp_type ) {
      case INTERP_STD: generate_sparsity_P_std (P, S, vertices, row, col); break;
      default: generate_sparsity_P (P, S, vertices, row, col); break;
  }
  return status;
  \<close>
  The result is the status with the new \<open>vertices\<close>, \<open>P\<close> and \<open>S\<close>, and \<open>None\<close> when
  the splitting does not return.
\<close>

definition coarse_recognized :: "macros \<Rightarrow> int \<Rightarrow> bool" where
  "coarse_recognized mc t \<longleftrightarrow> t = coarse_rs mc \<or> t = coarse_ac mc \<or> t = coarse_cr mc"

definition fasp_amg_coarsening_rs ::
  "macros \<Rightarrow> 'lu setup_ext \<Rightarrow> dCSRmat \<Rightarrow> int list \<Rightarrow> dCSRmat \<Rightarrow> iCSRmat \<Rightarrow> AMG_param
     \<Rightarrow> (int \<times> int list \<times> dCSRmat \<times> iCSRmat) option" where
  "fasp_amg_coarsening_rs mc ext A vertices P S param =
     (let ct = coarsening_type param;
          nrow = row A
      in if \<not> coarse_recognized mc ct then Some (error_amg_coarse_type mc, vertices, P, S)
         else
           let interp_type = (if ct \<noteq> coarse_rs mc \<and> ct = coarse_ac mc then interp_std mc
                              else interpolation_type param);
               S = generate_S (smallreal mc) (max_row_sum param) (strong_threshold param) A
           in if nnz S = 0 then Some (RUN_FAIL, vertices, P, S)
              else
                (case (if ct = coarse_rs mc
                       then form_coarse_level (interp_std mc) A S vertices nrow interp_type
                       else if ct = coarse_ac mc
                       then form_coarse_level_ag (interp_std mc) A S vertices nrow interp_type
                              (aggressive_path param)
                       else Some (fasp_amg_coarsening_cr ext A vertices param)) of
                   None \<Rightarrow> None
                 | Some (vertices, ncols) \<Rightarrow>
                     Some (SUCCESS, vertices,
                           (if interp_type = interp_std mc
                            then generate_sparsity_P_std S vertices nrow (nat ncols)
                            else generate_sparsity_P S vertices nrow (nat ncols)),
                           S)))"

section \<open>Vectors and levels\<close>

text \<open>
  A \<open>dvector\<close> is a length and an array. The fields \<open>row\<close> and \<open>val\<close> are called
  \<open>drow\<close> and \<open>dval\<close> here, the names being taken by the matrices.
\<close>

record dvector =
  drow :: int
  dval :: "real list"

definition fasp_dvec_create :: "int \<Rightarrow> dvector" where
  "fasp_dvec_create m = \<lparr> drow = m, dval = replicate (nat m) 0 \<rparr>"

text \<open>
  The data of a level, \<open>AMG_data\<close>: the matrix \<open>A\<close>, the restriction \<open>R\<close>, the
  prolongation \<open>P\<close>, the right-hand side \<open>b\<close>, the solution \<open>x\<close>, the work space \<open>w\<close>,
  \<open>num_levels\<close>, the C/F marker and the ILU data. The fields of one letter carry the
  prefix \<open>mgl_\<close>. The hierarchy \<open>mgl\<close> is the array of the levels.
\<close>

record 'lu AMG_data =
  mgl_A :: dCSRmat
  mgl_R :: dCSRmat
  mgl_P :: dCSRmat
  mgl_b :: dvector
  mgl_x :: dvector
  mgl_w :: dvector
  num_levels :: int
  cfmark :: "int list"
  LU :: 'lu

section \<open>The recursive cycle: \<open>fasp_solver_mgrecur\<close>\<close>

subsection \<open>Vector operations\<close>

text \<open>
  \<open>fasp_dvec_set\<close> of \<open>vec.c\<close>:
  \<^verbatim>\<open>
  if (n>0) x->row=n;
  else n=x->row;
  ... for (i=0; i<n; ++i) xpt[i]=val;
  \<close>
  A write at an index beyond the array is dropped here and below.
\<close>

definition fasp_dvec_set :: "int \<Rightarrow> dvector \<Rightarrow> real \<Rightarrow> dvector" where
  "fasp_dvec_set n x v =
     (let x = (if n > 0 then x\<lparr> drow := n \<rparr> else x);
          n = (if n > 0 then n else drow x)
      in x\<lparr> dval := fold (\<lambda>i a. a[i := v]) [0 ..< nat n] (dval x) \<rparr>)"

text \<open>
  Modelled from the spec: \<open>fasp_array_cp\<close>, \<open>fasp_blas_dcsr_aAxpy\<close> and
  \<open>fasp_blas_dcsr_mxv\<close> are called but defined in no file of the sources. The cycle uses
  them to ``compute residual r = b_l - A_l x_l'', to ``Restrict: b_{l+1} = R_l r'' and to
  ``Prolong: x_l += P_l x_{l+1}'': the copy of the first \<open>n\<close> entries of an array,
  \<open>y := y + alpha A x\<close> and \<open>y := A x\<close> on the rows of the matrix.
\<close>

definition csr_row_dot :: "dCSRmat \<Rightarrow> real list \<Rightarrow> nat \<Rightarrow> real" where
  "csr_row_dot M x i = sum_list (map (\<lambda>k. vals M ! k * x ! (JA M ! k)) [IA M ! i ..< IA M ! Suc i])"

definition fasp_array_cp :: "nat \<Rightarrow> real list \<Rightarrow> real list \<Rightarrow> real list" where
  "fasp_array_cp n x y = fold (\<lambda>i y. y[i := x ! i]) [0 ..< n] y"

definition fasp_blas_dcsr_aAxpy :: "real \<Rightarrow> dCSRmat \<Rightarrow> real list \<Rightarrow> real list \<Rightarrow> real list" where
  "fasp_blas_dcsr_aAxpy alpha M x y =
     fold (\<lambda>i y. y[i := y ! i + alpha * csr_row_dot M x i]) [0 ..< row M] y"

definition fasp_blas_dcsr_mxv :: "dCSRmat \<Rightarrow> real list \<Rightarrow> real list \<Rightarrow> real list" where
  "fasp_blas_dcsr_mxv M x y = fold (\<lambda>i y. y[i := csr_row_dot M x i]) [0 ..< row M] y"

subsection \<open>Smoothers and coarse solver\<close>

text \<open>
  The smoothers and the solver of the coarsest level are defined in no file of the
  sources; they are parameters with the arguments of the calls. Each of them gets the
  matrix, the right-hand side and the solution vector of the level and gives the new
  entries of the solution vector.
\<close>

record 'lu cycle_ext =
  fasp_smoother_dcsr_ilu :: "dCSRmat \<Rightarrow> dvector \<Rightarrow> dvector \<Rightarrow> 'lu \<Rightarrow> real list"
  fasp_dcsr_presmoothing ::
    "int \<Rightarrow> dCSRmat \<Rightarrow> dvector \<Rightarrow> dvector \<Rightarrow> int \<Rightarrow> int \<Rightarrow> int \<Rightarrow> int \<Rightarrow> real \<Rightarrow> int \<Rightarrow> int
       \<Rightarrow> int list \<Rightarrow> real list"
  fasp_dcsr_postsmoothing ::
    "int \<Rightarrow> dCSRmat \<Rightarrow> dvector \<Rightarrow> dvector \<Rightarrow> int \<Rightarrow> int \<Rightarrow> int \<Rightarrow> int \<Rightarrow> real \<Rightarrow> int \<Rightarrow> int
       \<Rightarrow> int list \<Rightarrow> real list"
  fasp_coarse_itsolver :: "dCSRmat \<Rightarrow> dvector \<Rightarrow> dvector \<Rightarrow> real \<Rightarrow> int \<Rightarrow> real list"

subsection \<open>The steps of one invocation\<close>

text \<open>
  \<^verbatim>\<open>
  if (level<param->ILU_levels) { fasp_smoother_dcsr_ilu(A0, b0, e0, LU_level); }
  else { fasp_dcsr_presmoothing(smoother,A0,b0,e0,param->presmooth_iter,
                                0,m0-1,1,relax,ndeg,smooth_order,ordering); }
  \<close>
\<close>

definition pre_smooth :: "'lu cycle_ext \<Rightarrow> AMG_param \<Rightarrow> nat \<Rightarrow> 'lu AMG_data \<Rightarrow> 'lu AMG_data" where
  "pre_smooth ext param level d =
     (let A0 = mgl_A d; b0 = mgl_b d; e0 = mgl_x d
      in d\<lparr> mgl_x := e0\<lparr> dval :=
            (if int level < ILU_levels param then fasp_smoother_dcsr_ilu ext A0 b0 e0 (LU d)
             else fasp_dcsr_presmoothing ext (smoother param) A0 b0 e0 (presmooth_iter param)
                    0 (int (row A0) - 1) 1 (relaxation param) (polynomial_degree param)
                    (smooth_order param) (cfmark d)) \<rparr> \<rparr>)"

text \<open>
  \<^verbatim>\<open>
  fasp_array_cp(m0,b0->val,r);
  fasp_blas_dcsr_aAxpy(-1.0,A0,e0->val,r);
  \<close>
  with \<open>r = mgl[level].w.val\<close>.
\<close>

definition form_residual :: "'lu AMG_data \<Rightarrow> 'lu AMG_data" where
  "form_residual d =
     (let A0 = mgl_A d;
          r = fasp_array_cp (row A0) (dval (mgl_b d)) (dval (mgl_w d));
          r = fasp_blas_dcsr_aAxpy (- 1) A0 (dval (mgl_x d)) r
      in d\<lparr> mgl_w := (mgl_w d)\<lparr> dval := r \<rparr> \<rparr>)"

text \<open>
  \<^verbatim>\<open>
  fasp_blas_dcsr_mxv(&mgl[level].R, r, b1->val);
  { SHORT i;
    fasp_dvec_set(m1,e1,0.0);
    for (i=0; i<cycle_type; ++i) fasp_solver_mgrecur (mgl, param, level+1); }
  \<close>
  The restriction and the zero initial guess act on the data \<open>d1\<close> of the next level.
\<close>

definition restriction :: "'lu AMG_data \<Rightarrow> 'lu AMG_data \<Rightarrow> 'lu AMG_data" where
  "restriction d0 d1 =
     d1\<lparr> mgl_b := (mgl_b d1)\<lparr> dval :=
           fasp_blas_dcsr_mxv (mgl_R d0) (dval (mgl_w d0)) (dval (mgl_b d1)) \<rparr> \<rparr>"

definition zero_guess :: "'lu AMG_data \<Rightarrow> 'lu AMG_data" where
  "zero_guess d1 = d1\<lparr> mgl_x := fasp_dvec_set (int (row (mgl_A d1))) (mgl_x d1) 0 \<rparr>"

text \<open>
  \<^verbatim>\<open>
  fasp_blas_dcsr_aAxpy(1.0, &mgl[level].P, e1->val, e0->val);
  \<close>
\<close>

definition prolongation :: "'lu AMG_data \<Rightarrow> 'lu AMG_data \<Rightarrow> 'lu AMG_data" where
  "prolongation d0 d1 =
     d0\<lparr> mgl_x := (mgl_x d0)\<lparr> dval :=
           fasp_blas_dcsr_aAxpy 1 (mgl_P d0) (dval (mgl_x d1)) (dval (mgl_x d0)) \<rparr> \<rparr>"

text \<open>
  \<^verbatim>\<open>
  if (level < param->ILU_levels) { fasp_smoother_dcsr_ilu(A0, b0, e0, LU_level); }
  else { fasp_dcsr_postsmoothing(smoother,A0,b0,e0,param->postsmooth_iter,
                                 0,m0-1,-1,relax,ndeg,smooth_order,ordering); }
  \<close>
\<close>

definition post_smooth :: "'lu cycle_ext \<Rightarrow> AMG_param \<Rightarrow> nat \<Rightarrow> 'lu AMG_data \<Rightarrow> 'lu AMG_data" where
  "post_smooth ext param level d =
     (let A0 = mgl_A d; b0 = mgl_b d; e0 = mgl_x d
      in d\<lparr> mgl_x := e0\<lparr> dval :=
            (if int level < ILU_levels param then fasp_smoother_dcsr_ilu ext A0 b0 e0 (LU d)
             else fasp_dcsr_postsmoothing ext (smoother param) A0 b0 e0 (postsmooth_iter param)
                    0 (int (row A0) - 1) (- 1) (relaxation param) (polynomial_degree param)
                    (smooth_order param) (cfmark d)) \<rparr> \<rparr>)"

text \<open>
  \<^verbatim>\<open>
  fasp_coarse_itsolver(A0, b0, e0, param->tol, print_level);
  \<close>
  (the direct solvers of the other branches of the \<open>#if\<close> are not compiled in by default).
\<close>

definition coarse_solve :: "'lu cycle_ext \<Rightarrow> AMG_param \<Rightarrow> 'lu AMG_data \<Rightarrow> 'lu AMG_data" where
  "coarse_solve ext param d =
     d\<lparr> mgl_x := (mgl_x d)\<lparr> dval :=
          fasp_coarse_itsolver ext (mgl_A d) (mgl_b d) (mgl_x d) (tol param) (print_level param) \<rparr> \<rparr>"

subsection \<open>The recursion\<close>

text \<open>
  \<^verbatim>\<open>
  if (level < mgl[level].num_levels-1) {
      ... pre smoothing, residual, restriction ...
      { SHORT i;
        fasp_dvec_set(m1,e1,0.0);
        for (i=0; i<cycle_type; ++i) fasp_solver_mgrecur (mgl, param, level+1); }
      ... prolongation, post smoothing ...
  }
  else { ... coarsest level solver ... }
  \<close>
  \<open>mgrecur n h level\<close> is the call on the array \<open>h\<close> of \<open>n\<close> levels, and \<open>mgrecur_times\<close> the
  loop of the recursive calls. The result is the array after the call; \<open>None\<close> stands
  for an access beyond the array (the level itself, or the next level where the code
  goes down). The code reads \<open>mgl[level+1].A.row\<close> before the test; the value is used
  in the first branch only, and the model reads it there.
\<close>

function mgrecur ::
    "'lu cycle_ext \<Rightarrow> AMG_param \<Rightarrow> nat \<Rightarrow> 'lu AMG_data list \<Rightarrow> nat \<Rightarrow> 'lu AMG_data list option"
  and mgrecur_times ::
    "'lu cycle_ext \<Rightarrow> AMG_param \<Rightarrow> nat \<Rightarrow> 'lu AMG_data list \<Rightarrow> nat \<Rightarrow> nat \<Rightarrow> 'lu AMG_data list option"
where
  "mgrecur ext param n h level =
     (if n \<le> level then None
      else if int level < num_levels (h ! level) - 1
      then (if n \<le> Suc level then None
            else let d0 = form_residual (pre_smooth ext param level (h ! level));
                     d1 = zero_guess (restriction d0 (h ! Suc level));
                     h = h[level := d0, Suc level := d1]
                 in case mgrecur_times ext param n h (Suc level) (nat (cycle_type param)) of
                      None \<Rightarrow> None
                    | Some h \<Rightarrow>
                        Some (h[level := post_smooth ext param level
                                           (prolongation (h ! level) (h ! Suc level))]))
      else Some (h[level := coarse_solve ext param (h ! level)]))"
| "mgrecur_times ext param n h level 0 = Some h"
| "mgrecur_times ext param n h level (Suc i) =
     (case mgrecur ext param n h level of
        None \<Rightarrow> None
      | Some h \<Rightarrow> mgrecur_times ext param n h level i)"
  by pat_completeness auto
termination
  by (relation "inv_image (less_than <*lex*> less_than)
        (\<lambda>x. case x of Inl (ext, param, n, h, level) \<Rightarrow> (2 * (n - level), 0)
                      | Inr (ext, param, n, h, level, i) \<Rightarrow> (2 * (n - level) + 1, i))")
     auto

declare mgrecur.simps [simp del]

definition fasp_solver_mgrecur ::
  "'lu cycle_ext \<Rightarrow> AMG_param \<Rightarrow> 'lu AMG_data list \<Rightarrow> nat \<Rightarrow> 'lu AMG_data list option" where
  "fasp_solver_mgrecur ext param h level = mgrecur ext param (length h) h level"

subsection \<open>States of the hierarchy\<close>

text \<open>
  One more call in a sequence of calls, each on the state that the call before has left;
  after an access beyond the array nothing is called.
\<close>

definition step_opt :: "('a \<Rightarrow> 'a option) \<Rightarrow> 'a option \<Rightarrow> 'a option" where
  "step_opt f s = (case s of None \<Rightarrow> None | Some g \<Rightarrow> f g)"

text \<open>
  Two levels have the same data of the hierarchy: the matrices, \<open>num_levels\<close>, the C/F
  marker and the ILU data.
\<close>

definition static_eq :: "'lu AMG_data \<Rightarrow> 'lu AMG_data \<Rightarrow> bool" where
  "static_eq d d' \<longleftrightarrow> mgl_A d = mgl_A d' \<and> mgl_R d = mgl_R d' \<and> mgl_P d = mgl_P d'
     \<and> num_levels d = num_levels d' \<and> cfmark d = cfmark d' \<and> LU d = LU d'"

text \<open>
  The vectors of a level have the dimension of its matrix, as the setup creates them
  (the work space may be longer).
\<close>

definition level_ok :: "'lu AMG_data \<Rightarrow> bool" where
  "level_ok d \<longleftrightarrow> drow (mgl_x d) = int (row (mgl_A d)) \<and> length (dval (mgl_x d)) = row (mgl_A d)
     \<and> drow (mgl_b d) = int (row (mgl_A d)) \<and> length (dval (mgl_b d)) = row (mgl_A d)
     \<and> row (mgl_A d) \<le> length (dval (mgl_w d))"

text \<open>
  The restriction of a level has the rows of the next level, and the columns of its
  rows are vertices of the level.
\<close>

definition link_ok :: "'lu AMG_data \<Rightarrow> 'lu AMG_data \<Rightarrow> bool" where
  "link_ok d0 d1 \<longleftrightarrow> row (mgl_R d0) = row (mgl_A d1)
     \<and> (\<forall>i \<in> {0 ..< row (mgl_R d0)}. \<forall>k \<in> {IA (mgl_R d0) ! i ..< IA (mgl_R d0) ! Suc i}.
           JA (mgl_R d0) ! k < row (mgl_A d0))"

text \<open>
  A well-formed state of the hierarchy.
\<close>

definition hierarchy_ok :: "'lu AMG_data list \<Rightarrow> bool" where
  "hierarchy_ok h \<longleftrightarrow> (\<forall>l \<in> {0 ..< length h}. level_ok (h ! l))
     \<and> (\<forall>l \<in> {0 ..< length h - 1}. link_ok (h ! l) (h ! Suc l))"

text \<open>
  The smoothers and the coarse solver give as many entries as the solution vector has.
\<close>

definition ext_ok :: "'lu cycle_ext \<Rightarrow> bool" where
  "ext_ok ext \<longleftrightarrow>
     (\<forall>A b x lu. length (fasp_smoother_dcsr_ilu ext A b x lu) = length (dval x))
   \<and> (\<forall>s A b x it i1 i2 st rl nd so ord.
         length (fasp_dcsr_presmoothing ext s A b x it i1 i2 st rl nd so ord) = length (dval x))
   \<and> (\<forall>s A b x it i1 i2 st rl nd so ord.
         length (fasp_dcsr_postsmoothing ext s A b x it i1 i2 st rl nd so ord) = length (dval x))
   \<and> (\<forall>A b x t pl. length (fasp_coarse_itsolver ext A b x t pl) = length (dval x))"

text \<open>
  What a call on \<open>level\<close> keeps of the state \<open>h\<close>: the length of the array, the sizes of
  the vectors, the data of the hierarchy, the finer levels and the right-hand side of the
  level.
\<close>

definition pres :: "nat \<Rightarrow> nat \<Rightarrow> 'lu AMG_data list \<Rightarrow> 'lu AMG_data list \<Rightarrow> bool" where
  "pres n level h g \<longleftrightarrow> length g = n \<and> (\<forall>l<n. level_ok (g ! l)) \<and> (\<forall>l<n. static_eq (g ! l) (h ! l))
     \<and> (\<forall>l<level. g ! l = h ! l) \<and> mgl_b (g ! level) = mgl_b (h ! level)"

text \<open>
  Two well-formed states with the same data of the hierarchy and the same right-hand
  side and solution vector on \<open>level\<close>.
\<close>

definition agree :: "nat \<Rightarrow> 'lu AMG_data list \<Rightarrow> 'lu AMG_data list \<Rightarrow> bool" where
  "agree level h h' \<longleftrightarrow> length h' = length h \<and> hierarchy_ok h \<and> hierarchy_ok h'
     \<and> (\<forall>l \<in> {0 ..< length h}. static_eq (h ! l) (h' ! l))
     \<and> mgl_x (h ! level) = mgl_x (h' ! level) \<and> mgl_b (h ! level) = mgl_b (h' ! level)"

section \<open>The setup of the hierarchy: \<open>fasp_amg_setup_rs\<close>\<close>

text \<open>
  Modelled from the spec: the macro \<open>MAX\<close> is defined in no file of the sources; the
  larger of its arguments (the name \<open>MAX\<close> is taken).
\<close>

definition MAX_int :: "int \<Rightarrow> int \<Rightarrow> int" where
  "MAX_int a b = (if a > b then a else b)"

text \<open>
  Modelled from the spec: \<open>fasp_blas_dcsr_rap\<close> is called but defined in no file of
  the sources. It ``forms the next-level operator via the triple sparse product R A P''.
  The product of two matrices in CSR format, row by row; the entries of a row that fall
  on one column are added.
\<close>

definition add_entry :: "nat \<Rightarrow> real \<Rightarrow> (nat \<times> real) list \<Rightarrow> (nat \<times> real) list" where
  "add_entry j a r =
     (if j \<in> fst ` set r then map (\<lambda>(c, y). if c = j then (c, y + a) else (c, y)) r
      else r @ [(j, a)])"

definition csr_row :: "dCSRmat \<Rightarrow> nat \<Rightarrow> (nat \<times> real) list" where
  "csr_row M i = map (\<lambda>k. (JA M ! k, vals M ! k)) [IA M ! i ..< IA M ! Suc i]"

definition row_times :: "dCSRmat \<Rightarrow> (nat \<times> real) list \<Rightarrow> (nat \<times> real) list" where
  "row_times B r =
     fold (\<lambda>(k, a) acc. fold (\<lambda>(j, b) acc. add_entry j (a * b) acc) (csr_row B k) acc) r []"

definition csr_of_entries :: "nat \<Rightarrow> (nat \<times> real) list list \<Rightarrow> dCSRmat" where
  "csr_of_entries ncols rows =
     \<lparr> row = length rows, col = ncols, nnz = length (concat rows),
       IA = map (\<lambda>i. length (concat (take i rows))) [0 ..< length rows + 1],
       JA = map fst (concat rows), val = Some (map snd (concat rows)) \<rparr>"

definition csr_mult :: "dCSRmat \<Rightarrow> dCSRmat \<Rightarrow> dCSRmat" where
  "csr_mult M B = csr_of_entries (col B) (map (\<lambda>i. row_times B (csr_row M i)) [0 ..< row M])"

definition fasp_blas_dcsr_rap :: "dCSRmat \<Rightarrow> dCSRmat \<Rightarrow> dCSRmat \<Rightarrow> dCSRmat" where
  "fasp_blas_dcsr_rap R A P = csr_mult (csr_mult R A) P"

text \<open>
  The state of the main loop: the hierarchy, \<open>vertices\<close>, \<open>S\<close>, the parameters (the loop
  writes \<open>coarsening_type\<close>), \<open>level\<close> and \<open>status\<close>. The fields carry the prefix \<open>s_\<close>.
\<close>

record 'lu setup_state =
  s_mgl :: "'lu AMG_data list"
  s_vertices :: "int list"
  s_str :: iCSRmat
  s_param :: AMG_param
  s_level :: nat
  s_status :: int

text \<open>
  How the loop is left: by its condition or a \<open>break\<close> (\<open>Left\<close>), or by
  \<open>goto FINISHED\<close> after a failed ILU factorisation (\<open>Finished\<close>), each with the state;
  by the end of the program inside \<open>fasp_amg_interp\<close> (\<open>Aborted\<close>); \<open>Diverged\<close> stands
  for a splitting that does not return or a level beyond the array \<open>mgl\<close>.
\<close>

datatype 'lu loop_end =
    Left "'lu setup_state"
  | Finished "'lu setup_state"
  | Aborted int
  | Diverged

text \<open>
  One pass of the body of
  \<^verbatim>\<open>
  while ( (mgl[level].A.row>MAX(param->coarse_dof,50)) && (level<max_levels-1) ) {
      if ( level < param->ILU_levels ) {
          status = fasp_ilu_dcsr_setup(&mgl[level].A,&mgl[level].LU,&iluparam);
          if ( status < 0 ) { ...; goto FINISHED; }
      }
      ...
      if ( (param->coarsening_type == COARSE_AC) && (level >= param->aggressive_level) ) {
          param->coarsening_type = COARSE_RS;
      }
      status = fasp_amg_coarsening_rs(&mgl[level].A, &vertices, &mgl[level].P, &S, param);
      if ( status < 0 ) { ...; break; }
      size = mgl[level].A.row;
      mgl[level].cfmark = fasp_ivec_create(size);
      memcpy(mgl[level].cfmark.val, vertices.val, size*sizeof(INT));
      if ( mgl[level].P.col <= 50 ) { break; }
      else if ( mgl[level].P.col * 1.5 > mgl[level].A.row ) {
          param->coarsening_type = COARSE_RS;
      }
      status = fasp_amg_interp(&mgl[level].A, &vertices, &mgl[level].P, &S, param);
      if ( status < 0 ) { ...; break; }
      fasp_dcsr_trans(&mgl[level].P, &mgl[level].R);
      fasp_blas_dcsr_rap (&mgl[level].R, &mgl[level].A, &mgl[level].P, &mgl[level+1].A);
      ...
      ++level;
  }
  \<close>
  The result is the state at the end of the pass, before \<open>++level\<close> (\<open>Inl\<close>), or the way
  the loop is left (\<open>Inr\<close>).
  The data of the Schwarz smoother, which the modelled functions do not read, are
  left out.
\<close>

definition setup_ilu :: "'lu setup_ext \<Rightarrow> 'lu setup_state \<Rightarrow> 'lu setup_state" where
  "setup_ilu ext st =
     (let l = s_level st
      in if int l < ILU_levels (s_param st)
         then let (s, lu) = fasp_ilu_dcsr_setup ext (mgl_A (s_mgl st ! l)) (s_param st)
              in st\<lparr> s_status := s, s_mgl := (s_mgl st)[l := (s_mgl st ! l)\<lparr> LU := lu \<rparr>] \<rparr>
         else st)"

definition setup_body ::
  "macros \<Rightarrow> 'lu setup_ext \<Rightarrow> 'lu setup_state \<Rightarrow> 'lu setup_state + 'lu loop_end" where
  "setup_body mc ext st0 =
     (let st = setup_ilu ext st0;
          l = s_level st
      in if int l < ILU_levels (s_param st) \<and> s_status st < 0 then Inr (Finished st)
         else
           let st = (if coarsening_type (s_param st) = coarse_ac mc
                        \<and> int l \<ge> aggressive_level (s_param st)
                     then st\<lparr> s_param := (s_param st)\<lparr> coarsening_type := coarse_rs mc \<rparr> \<rparr>
                     else st)
           in case fasp_amg_coarsening_rs mc ext (mgl_A (s_mgl st ! l)) (s_vertices st)
                     (mgl_P (s_mgl st ! l)) (s_str st) (s_param st) of
                None \<Rightarrow> Inr Diverged
              | Some (s, v, P, S) \<Rightarrow>
                  let st = st\<lparr> s_status := s, s_vertices := v, s_str := S,
                               s_mgl := (s_mgl st)[l := (s_mgl st ! l)\<lparr> mgl_P := P \<rparr>] \<rparr>
                  in if s < 0 then Inr (Left st)
                     else
                       let A = mgl_A (s_mgl st ! l);
                           st = st\<lparr> s_mgl := (s_mgl st)[l := (s_mgl st ! l)
                                     \<lparr> cfmark := take (row A) (s_vertices st) \<rparr>] \<rparr>
                       in if int (col P) \<le> 50 then Inr (Left st)
                          else
                            let st = (if real (col P) * 1.5 > real (row A)
                                      then st\<lparr> s_param := (s_param st)
                                               \<lparr> coarsening_type := coarse_rs mc \<rparr> \<rparr>
                                      else st)
                            in case fasp_amg_interp mc ext A (s_vertices st) P (s_str st) (s_param st) of
                                 Exited c \<Rightarrow> Inr (Aborted c)
                               | Returned (s, P) \<Rightarrow>
                                   let st = st\<lparr> s_status := s,
                                                s_mgl := (s_mgl st)[l := (s_mgl st ! l)\<lparr> mgl_P := P \<rparr>] \<rparr>
                                   in if s < 0 then Inr (Left st)
                                      else if Suc l \<ge> length (s_mgl st) then Inr Diverged
                                      else
                                        let R = fasp_dcsr_trans P;
                                            Ac = fasp_blas_dcsr_rap R A P
                                        in Inl (st\<lparr> s_mgl := (s_mgl st)
                                                    [l := (s_mgl st ! l)\<lparr> mgl_R := R \<rparr>,
                                                     Suc l := (s_mgl st ! Suc l)\<lparr> mgl_A := Ac \<rparr>] \<rparr>))"

text \<open>
  The loop. \<open>mlev\<close> is the local variable \<open>max_levels\<close> at the loop, the value of
  \<open>param->max_levels\<close> at the entry of the function; the number of passes is bounded by
  it.
\<close>

function setup_loop ::
  "macros \<Rightarrow> 'lu setup_ext \<Rightarrow> int \<Rightarrow> 'lu setup_state \<Rightarrow> 'lu loop_end" where
  "setup_loop mc ext mlev st =
     (if s_level st < length (s_mgl st)
         \<and> int (row (mgl_A (s_mgl st ! s_level st))) > MAX_int (coarse_dof (s_param st)) 50
         \<and> int (s_level st) < mlev - 1
      then (case setup_body mc ext st of
              Inr e \<Rightarrow> e
            | Inl st' \<Rightarrow> setup_loop mc ext mlev (st'\<lparr> s_level := Suc (s_level st) \<rparr>))
      else if s_level st < length (s_mgl st) then Left st else Diverged)"
  by pat_completeness auto
termination
  by (relation "measure (\<lambda>(mc, ext, mlev, st). nat (mlev - int (s_level st)))") auto

declare setup_loop.simps [simp del]

text \<open>
  After the loop:
  \<^verbatim>\<open>
  mgl[0].num_levels = max_levels = level+1;
  mgl[0].w          = fasp_dvec_create(m);
  clevel            = level;
  for ( level = 1; level <= clevel; ++level ) {
      mm                    = mgl[level].A.row;
      mgl[level].num_levels = max_levels;
      mgl[level].b          = fasp_dvec_create(mm);
      mgl[level].x          = fasp_dvec_create(mm);
      if ( cycle_type == NL_AMLI_CYCLE ) mgl[level].w = fasp_dvec_create(3*mm);
      else mgl[level].w = fasp_dvec_create(2*mm);
  }
  ...
  FINISHED:
      fasp_ivec_free(&vertices);
      return status;
  \<close>
\<close>

definition setup_level :: "macros \<Rightarrow> int \<Rightarrow> int \<Rightarrow> 'lu AMG_data \<Rightarrow> 'lu AMG_data" where
  "setup_level mc ctype nlev d =
     (let mm = int (row (mgl_A d))
      in d\<lparr> num_levels := nlev, mgl_b := fasp_dvec_create mm, mgl_x := fasp_dvec_create mm,
            mgl_w := fasp_dvec_create ((if ctype = nl_amli_cycle mc then 3 else 2) * mm) \<rparr>)"

definition setup_finish ::
  "macros \<Rightarrow> int \<Rightarrow> int \<Rightarrow> 'lu setup_state \<Rightarrow> 'lu AMG_data list" where
  "setup_finish mc ctype m st =
     (let clevel = s_level st;
          nlev = int clevel + 1;
          h = (s_mgl st)[0 := (s_mgl st ! 0)\<lparr> num_levels := nlev, mgl_w := fasp_dvec_create m \<rparr>]
      in fold (\<lambda>l h. h[l := setup_level mc ctype nlev (h ! l)]) [1 ..< Suc clevel] h)"

text \<open>
  \<open>fasp_amg_setup_rs\<close>. The result is the returned status with the hierarchy and the
  parameters, or the exit code of the program; \<open>None\<close> stands for \<open>Diverged\<close>. The
  coefficients of the AMLI cycle, which the modelled functions do not read, are left
  out.
\<close>

definition fasp_amg_setup_rs ::
  "macros \<Rightarrow> 'lu setup_ext \<Rightarrow> 'lu AMG_data list \<Rightarrow> AMG_param
     \<Rightarrow> (int \<times> 'lu AMG_data list \<times> AMG_param) outcome option" where
  "fasp_amg_setup_rs mc ext h p =
     (let m = int (row (mgl_A (h ! 0)));
          p = p\<lparr> tentative_smooth := 1 \<rparr>;
          p = (if coarsening_type p = coarse_ac mc \<and> aggressive_level p < 1
               then p\<lparr> aggressive_level := 1 \<rparr> else p);
          st = \<lparr> s_mgl = h, s_vertices = replicate (nat m) 0, s_str = \<lparr> row = 0, col = 0, nnz = 0,
                 IA = [], JA = [], val = None \<rparr>, s_param = p, s_level = 0, s_status = SUCCESS \<rparr>
      in case setup_loop mc ext (max_levels p) st of
           Left st \<Rightarrow> Some (Returned (s_status st, setup_finish mc (cycle_type p) m st, s_param st))
         | Finished st \<Rightarrow> Some (Returned (s_status st, s_mgl st, s_param st))
         | Aborted c \<Rightarrow> Some (Exited c)
         | Diverged \<Rightarrow> None)"

section \<open>Concrete inputs\<close>

text \<open>
  Values for the macros (pairwise different type codes, negative error codes), trivial
  collaborators and a set of parameters.
\<close>

definition mc_ex :: macros where
  "mc_ex = \<lparr> coarse_rs = 1, coarse_ac = 4, coarse_cr = 3, interp_eng_min = 2, interp_std = 3,
     error_amg_coarse_type = - 42, error_amg_interp_type = - 40, nl_amli_cycle = 4,
     smallreal = 1 / 10 ^ 20 \<rparr>"

definition ext_ex :: "unit setup_ext" where
  "ext_ex = \<lparr> fasp_amg_coarsening_cr = (\<lambda>A v p. (v, 0)), getiteval = (\<lambda>A P. vals P),
     interp_STD = (\<lambda>A v P S p. P), fasp_ilu_dcsr_setup = (\<lambda>A p. (0, ())) \<rparr>"

definition param_ex :: AMG_param where
  "param_ex = \<lparr> coarsening_type = 1, interpolation_type = 1, strong_threshold = 1 / 4,
     max_row_sum = 9 / 10, truncation_threshold = 2 / 10, aggressive_level = 0,
     aggressive_path = 1, max_levels = 2, coarse_dof = 50, ILU_levels = 0, cycle_type = 1,
     tentative_smooth = 12 / 10, smoother = 2, presmooth_iter = 1, postsmooth_iter = 1,
     relaxation = 1, polynomial_degree = 3, smooth_order = 1, tol = 1 / 10 ^ 6,
     print_level = 0 \<rparr>"

text \<open>
  An empty matrix, a level with the matrix \<open>M\<close> and nothing else, and a hierarchy of \<open>n\<close>
  levels before the setup: \<open>M\<close> on the finest level.
\<close>

definition empty_mat :: "'a CSRmat" where
  "empty_mat = \<lparr> row = 0, col = 0, nnz = 0, IA = [], JA = [], val = None \<rparr>"

definition level_ex :: "dCSRmat \<Rightarrow> unit AMG_data" where
  "level_ex M = \<lparr> mgl_A = M, mgl_R = empty_mat, mgl_P = empty_mat,
     mgl_b = fasp_dvec_create (int (row M)), mgl_x = fasp_dvec_create (int (row M)),
     mgl_w = fasp_dvec_create 0, num_levels = 0, cfmark = [], LU = () \<rparr>"

definition hierarchy_ex :: "dCSRmat \<Rightarrow> nat \<Rightarrow> unit AMG_data list" where
  "hierarchy_ex M n = level_ex M # replicate (n - 1) (level_ex empty_mat)"

text \<open>The identity matrix of dimension \<open>n\<close>.\<close>

definition A_diag :: "nat \<Rightarrow> dCSRmat" where
  "A_diag n = \<lparr> row = n, col = n, nnz = n, IA = [0 ..< n + 1], JA = [0 ..< n],
      val = Some (replicate n 1) \<rparr>"

text \<open>
  A matrix of dimension \<open>2m\<close> with the diagonal blocks \<open>(2 -1; 1 2)\<close>: the even
  vertex of a pair depends strongly on the odd one, the odd vertex on no vertex.
\<close>

definition A_pairs :: "nat \<Rightarrow> dCSRmat" where
  "A_pairs m = \<lparr> row = 2 * m, col = 2 * m, nnz = 4 * m,
      IA = map (\<lambda>i. 2 * i) [0 ..< 2 * m + 1],
      JA = concat (map (\<lambda>k. [2 * k, 2 * k + 1, 2 * k, 2 * k + 1]) [0 ..< m]),
      val = Some (concat (replicate m [2, - 1, 1, 2])) \<rparr>"

text \<open>
  Smoothers and a coarse solver: a damped Jacobi step with the diagonal taken as 2, and the
  division by the first entry of the row.
\<close>

definition cycle_ext_ex :: "unit cycle_ext" where
  "cycle_ext_ex = \<lparr>
     fasp_smoother_dcsr_ilu = (\<lambda>A b x lu.
        map (\<lambda>i. dval x ! i + (dval b ! i - csr_row_dot A (dval x) i) / 2) [0 ..< length (dval x)]),
     fasp_dcsr_presmoothing = (\<lambda>s A b x it i1 i2 st rl nd so ord.
        map (\<lambda>i. dval x ! i + (dval b ! i - csr_row_dot A (dval x) i) / 2) [0 ..< length (dval x)]),
     fasp_dcsr_postsmoothing = (\<lambda>s A b x it i1 i2 st rl nd so ord.
        map (\<lambda>i. dval x ! i + (dval b ! i - csr_row_dot A (dval x) i) / 2) [0 ..< length (dval x)]),
     fasp_coarse_itsolver = (\<lambda>A b x t pl.
        map (\<lambda>i. dval b ! i / vals A ! (IA A ! i)) [0 ..< length (dval x)]) \<rparr>"

text \<open>
  A hierarchy of two levels on the matrix \<open>A3\<close>: one coarse vertex, the coarse matrix
  is \<open>R A P\<close>. The right-hand side and the solution of the coarse level and the work space
  of the fine level are arguments.
\<close>

definition P_ex :: dCSRmat where
  "P_ex = \<lparr> row = 3, col = 1, nnz = 3, IA = [0, 1, 2, 3], JA = [0, 0, 0],
            val = Some [1 / 2, 1, 1 / 2] \<rparr>"

definition R_ex :: dCSRmat where
  "R_ex = \<lparr> row = 1, col = 3, nnz = 3, IA = [0, 3], JA = [0, 1, 2],
            val = Some [1 / 2, 1, 1 / 2] \<rparr>"

definition A1_ex :: dCSRmat where
  "A1_ex = \<lparr> row = 1, col = 1, nnz = 1, IA = [0, 1], JA = [0], val = Some [1] \<rparr>"

definition mgl_ex :: "real list \<Rightarrow> real list \<Rightarrow> real list \<Rightarrow> unit AMG_data list" where
  "mgl_ex b1 x1 w0 =
     [\<lparr> mgl_A = A3, mgl_R = R_ex, mgl_P = P_ex,
        mgl_b = \<lparr> drow = 3, dval = [1, 2, 3] \<rparr>, mgl_x = \<lparr> drow = 3, dval = [0, 0, 0] \<rparr>,
        mgl_w = \<lparr> drow = 3, dval = w0 \<rparr>, num_levels = 2, cfmark = [0, 1, 0], LU = () \<rparr>,
      \<lparr> mgl_A = A1_ex, mgl_R = empty_mat, mgl_P = empty_mat,
        mgl_b = \<lparr> drow = 1, dval = b1 \<rparr>, mgl_x = \<lparr> drow = 1, dval = x1 \<rparr>,
        mgl_w = \<lparr> drow = 2, dval = [0, 0] \<rparr>, num_levels = 2, cfmark = [], LU = () \<rparr>]"

section \<open>Unsmoothed aggregation setup: adapting the coupling threshold\<close>

text \<open>
  The statement after \<open>aggregation_vmb\<close> in \<open>amg_setup_unsmoothP_unsmoothR\<close>:
  \<^verbatim>\<open>
  if ( num_aggs[lvl]*4 > mgl[lvl].A.row )
      param->strong_coupled /= 2;
  else if ( num_aggs[lvl]*1.25 < mgl[lvl].A.row )
      param->strong_coupled *= 2;
  \<close>
  The first product is an \<open>INT\<close> product, the second one is a product of doubles.
\<close>

definition adapt_strong_coupled :: "int \<Rightarrow> int \<Rightarrow> real \<Rightarrow> real" where
  "adapt_strong_coupled num_aggs nrow strong_coupled =
     (if INT_mul num_aggs 4 > nrow then strong_coupled / 2
      else if real_of_int num_aggs * 1.25 < real_of_int nrow then strong_coupled * 2
      else strong_coupled)"

section \<open>Properties\<close>

subsection \<open>Machine arithmetic\<close>

lemma INT_mul_exact:
  "- (2 ^ 31) \<le> a * b \<Longrightarrow> a * b < 2 ^ 31 \<Longrightarrow> INT_mul a b = a * b"
  unfolding INT_mul_def by (simp add: signed_take_bit_int_eq_self)

subsection \<open>Lists\<close>

lemma nth_concat_slice:
  assumes "i < length xss"
  shows "map ((!) (concat xss)) [length (concat (take i xss)) ..< length (concat (take (Suc i) xss))]
         = xss ! i"
proof -
  have split: "concat xss = concat (take i xss) @ xss ! i @ concat (drop (Suc i) xss)"
    using assms by (metis append_take_drop_id concat.simps(2) concat_append Cons_nth_drop_Suc)
  have len: "length (concat (take (Suc i) xss)) = length (concat (take i xss)) + length (xss ! i)"
    using assms by (simp add: take_Suc_conv_app_nth)
  show ?thesis
    unfolding len
    by (subst split, intro nth_equalityI) (auto simp: nth_append)
qed

section \<open>Transposition\<close>

lemma concat_upt_ranges:
  assumes "\<forall>i \<in> {0 ..< n}. f i \<le> f (Suc i)"
  shows "concat (map (\<lambda>i. [f i ..< f (Suc i)]) [0 ..< n]) = [f 0 ..< f n]"
  using assms
proof (induction n)
  case 0 show ?case by simp
next
  case (Suc n)
  have mono: "f 0 \<le> f n" using Suc.prems
    by (induction n) (auto simp: atLeastLessThanSuc intro: order_trans)
  have "f n \<le> f (Suc n)" using Suc.prems by simp
  with mono have "[f 0 ..< f n] @ [f n ..< f (Suc n)] = [f 0 ..< f (Suc n)]"
    by (metis le_Suc_ex upt_add_eq_append)
  thus ?case using Suc by simp
qed

lemma positions_snd:
  assumes "csr_wf M"
  shows "map snd (positions M) = [0 ..< nnz M]"
proof -
  have "map snd (positions M) = concat (map (\<lambda>i. [IA M ! i ..< IA M ! Suc i]) [0 ..< row M])"
    by (simp add: positions_def map_concat comp_def)
  also have "\<dots> = [IA M ! 0 ..< IA M ! row M]"
    using assms by (intro concat_upt_ranges) (simp add: csr_wf_def)
  finally show ?thesis using assms by (simp add: csr_wf_def)
qed

lemma positions_keys:
  assumes "csr_wf M"
  shows "map (\<lambda>(i, p). JA M ! p) (positions M) = JA M"
proof -
  have "map (\<lambda>(i, p). JA M ! p) (positions M) = map ((!) (JA M)) (map snd (positions M))"
    by (simp add: comp_def case_prod_unfold)
  also have "\<dots> = map ((!) (JA M)) [0 ..< length (JA M)]"
    using assms by (simp add: positions_snd csr_wf_def)
  finally show ?thesis by (simp add: map_nth)
qed

lemma length_trans_count [simp]: "length (trans_count m ja t xs) = length xs"
  by (simp add: trans_count_def Let_def)

lemma length_trans_accum [simp]: "length (trans_accum i xs) = length xs"
  by (simp add: trans_accum_def)

lemma count_phase:
  assumes "t \<le> length ja"
  shows "fold (trans_count m ja) [0 ..< t] (replicate (Suc m) 0)
         = map (\<lambda>j. if 2 \<le> j then length (filter (\<lambda>k. k + 2 = j) (take t ja)) else 0) [0 ..< Suc m]"
    (is "?L t = ?R t")
  using assms
proof (induction t)
  case 0 show ?case by (auto intro!: nth_equalityI simp del: upt_Suc replicate_Suc)
next
  case (Suc t)
  hence t: "t < length ja" by simp
  have tk: "take (Suc t) ja = take t ja @ [ja ! t]" using t by (simp add: take_Suc_conv_app_nth)
  have "?L (Suc t) = trans_count m ja t (?R t)" using Suc.IH t by simp
  also have "\<dots> = ?R (Suc t)"
  proof (rule nth_equalityI)
    show "length (trans_count m ja t (?R t)) = length (?R (Suc t))"
      by (simp del: upt_Suc)
  next
    fix i assume "i < length (trans_count m ja t (?R t))"
    hence i: "i < Suc m" by (simp del: upt_Suc)
    show "trans_count m ja t (?R t) ! i = ?R (Suc t) ! i"
      using i unfolding tk
      by (auto simp: trans_count_def Let_def nth_list_update simp del: upt_Suc)
  qed
  finally show ?case .
qed

lemma accum_phase:
  assumes "u \<le> Suc m" "2 \<le> u"
  shows "fold trans_accum [2 ..< u]
           (map (\<lambda>j. if 2 \<le> j then length (filter (\<lambda>k. k + 2 = j) ja) else 0) [0 ..< Suc m])
         = map (\<lambda>j. if j < u then bucket_start ja (j - 1)
                     else length (filter (\<lambda>k. k + 2 = j) ja)) [0 ..< Suc m]"
    (is "?L u = ?R u")
  using assms
proof (induction u)
  case 0 thus ?case by simp
next
  case (Suc u)
  show ?case
  proof (cases "u = 1")
    case True
    have "?L 2 = ?R 2"
      by (auto simp: bucket_start_def simp del: upt_Suc intro!: nth_equalityI)
    thus ?thesis using True by (simp add: numeral_2_eq_2)
  next
    case False
    hence u: "2 \<le> u" "u \<le> Suc m" "u < Suc m" using Suc.prems by auto
    have "?L (Suc u) = trans_accum u (?R u)" using Suc.IH u by simp
    also have "\<dots> = ?R (Suc u)"
    proof (rule nth_equalityI)
      show "length (trans_accum u (?R u)) = length (?R (Suc u))" by (simp del: upt_Suc)
    next
      fix i assume "i < length (trans_accum u (?R u))"
      hence i: "i < Suc m" by (simp del: upt_Suc)
      have split: "filter (\<lambda>k. k < u - 1) ja = filter (\<lambda>k. k < u - 1) ja" by simp
      have len: "length (filter (\<lambda>k. k < u - 1) ja)
                 = length (filter (\<lambda>k. k + 2 = u) ja) + length (filter (\<lambda>k. k < u - 2) ja)"
      proof -
        have "\<And>k. (k < u - 1) = (k + 2 = u \<or> k < u - 2)" using u by auto
        hence "length (filter (\<lambda>k. k < u - 1) ja) = length (filter (\<lambda>k. k + 2 = u \<or> k < u - 2) ja)"
          by simp
        also have "\<dots> = length (filter (\<lambda>k. k + 2 = u) ja) + length (filter (\<lambda>k. k < u - 2) ja)"
          by (induction ja) auto
        finally show ?thesis .
      qed
      have R: "\<And>v j. j < Suc m \<Longrightarrow> ?R v ! j =
                 (if j < v then bucket_start ja (j - 1) else length (filter (\<lambda>k. k + 2 = j) ja))"
        by (simp del: upt_Suc)
      show "trans_accum u (?R u) ! i = ?R (Suc u) ! i"
      proof (cases "i = u")
        case True
        have "trans_accum u (?R u) ! u = ?R u ! u + ?R u ! (u - 1)"
          using u by (simp add: trans_accum_def del: upt_Suc)
        also have "\<dots> = length (filter (\<lambda>k. k + 2 = u) ja) + bucket_start ja (u - 1 - 1)"
          using u by (simp only: R) simp
        also have "\<dots> = bucket_start ja (u - 1)"
          using len by (simp add: bucket_start_def numeral_2_eq_2)
        also have "\<dots> = ?R (Suc u) ! u"
          using u by (simp only: R) simp
        finally show ?thesis using True by simp
      next
        case False
        have "trans_accum u (?R u) ! i = ?R u ! i"
          using False by (simp add: trans_accum_def del: upt_Suc)
        also have "\<dots> = ?R (Suc u) ! i"
          using i False by (simp only: R) auto
        finally show ?thesis .
      qed
    qed
    finally show ?thesis .
  qed
qed

lemma bucket_start_Suc:
  "bucket_start (map fst es) (Suc c) = bucket_start (map fst es) c + length (bucket es c)"
  unfolding bucket_start_def bucket_def
  by (induction es) (auto simp: less_Suc_eq)

lemma bucket_start_mono: "c \<le> d \<Longrightarrow> bucket_start ks c \<le> bucket_start ks d"
  unfolding bucket_start_def
  by (induction ks) auto

lemma bucket_start_all:
  assumes "\<forall>k \<in> set ks. k < m"
  shows "bucket_start ks m = length ks"
  using assms unfolding bucket_start_def by (induction ks) auto

lemma bucket_take_Suc:
  assumes "t < length es"
  shows "bucket (take (Suc t) es) c = bucket (take t es) c @ (if fst (es ! t) = c then [snd (es ! t)] else [])"
  using assms by (simp add: bucket_def take_Suc_conv_app_nth)

lemma bucket_take_less:
  assumes "t < length es" "fst (es ! t) = c"
  shows "length (bucket (take t es) c) < length (bucket es c)"
proof -
  have "es = take t es @ es ! t # drop (Suc t) es"
    using assms(1) by (simp add: id_take_nth_drop)
  hence "bucket es c = bucket (take t es) c @ bucket (es ! t # drop (Suc t) es) c"
    unfolding bucket_def by (metis filter_append map_append)
  thus ?thesis using assms(2) by (simp add: bucket_def)
qed

lemma bucket_take_le:
  "length (bucket (take t es) c) \<le> length (bucket es c)"
proof -
  have "es = take t es @ drop t es" by simp
  hence "bucket es c = bucket (take t es) c @ bucket (drop t es) c"
    unfolding bucket_def by (metis filter_append map_append)
  thus ?thesis by simp
qed

lemma concat_buckets_length:
  "c \<le> m \<Longrightarrow> length (concat (take c (map (bucket es) [0 ..< m]))) = bucket_start (map fst es) c"
proof (induction c)
  case 0 show ?case by (simp add: bucket_start_def)
next
  case (Suc c)
  hence "take (Suc c) (map (bucket es) [0 ..< m]) = take c (map (bucket es) [0 ..< m]) @ [bucket es c]"
    by (simp add: take_Suc_conv_app_nth)
  thus ?case using Suc by (simp add: bucket_start_Suc)
qed

lemma concat_eqI:
  assumes "length out = length (concat xss)"
    and "\<And>c q. c < length xss \<Longrightarrow> q < length (xss ! c)
           \<Longrightarrow> out ! (length (concat (take c xss)) + q) = xss ! c ! q"
  shows "out = concat xss"
  using assms
proof (induction xss arbitrary: out rule: rev_induct)
  case Nil thus ?case by simp
next
  case (snoc xs xss)
  let ?n = "length (concat xss)"
  have len: "length out = ?n + length xs" using snoc.prems(1) by simp
  have "take ?n out = concat xss"
  proof (rule snoc.IH)
    show "length (take ?n out) = length (concat xss)" using len by simp
  next
    fix c q assume c: "c < length xss" and q: "q < length (xss ! c)"
    have "length (concat (take c xss)) + q < length (concat (take (Suc c) xss))"
      using c q by (simp add: take_Suc_conv_app_nth)
    also have "\<dots> \<le> ?n"
      by (metis append_take_drop_id concat_append length_append le_add1)
    finally have lt: "length (concat (take c xss)) + q < ?n" .
    have "out ! (length (concat (take c (xss @ [xs]))) + q) = (xss @ [xs]) ! c ! q"
      using c q by (intro snoc.prems(2)) (simp_all add: nth_append)
    thus "take ?n out ! (length (concat (take c xss)) + q) = xss ! c ! q"
      using c lt by (simp add: nth_append)
  qed
  moreover have "drop ?n out = xs"
  proof (rule nth_equalityI)
    show "length (drop ?n out) = length xs" using len by simp
  next
    fix q assume "q < length (drop ?n out)"
    hence q: "q < length xs" using len by simp
    have "out ! (length (concat (take (length xss) (xss @ [xs]))) + q) = (xss @ [xs]) ! length xss ! q"
      using q by (intro snoc.prems(2)) simp_all
    thus "drop ?n out ! q = xs ! q" using len q by simp
  qed
  ultimately show ?case by (metis append_take_drop_id concat_append concat.simps append_Nil2)
qed

lemma fill_ia_nth:
  "j < Suc m \<Longrightarrow> fill_ia es m t ! j = (if j = 0 then 0
       else bucket_start (map fst es) (j - 1) + length (bucket (take t es) (j - 1)))"
  unfolding fill_ia_def by (simp del: upt_Suc)

lemma length_fill_ia [simp]: "length (fill_ia es m t) = Suc m"
  by (simp add: fill_ia_def del: upt_Suc)

lemma fill_ia_step:
  assumes t: "t < length es" and c: "fst (es ! t) = c" "c < m"
  shows "(fill_ia es m t)[c + 1 := fill_ia es m t ! (c + 1) + 1] = fill_ia es m (Suc t)"
proof (rule nth_equalityI)
  show "length ((fill_ia es m t)[c + 1 := fill_ia es m t ! (c + 1) + 1]) = length (fill_ia es m (Suc t))"
    by simp
next
  fix j assume "j < length ((fill_ia es m t)[c + 1 := fill_ia es m t ! (c + 1) + 1])"
  hence j: "j < Suc m" by simp
  show "(fill_ia es m t)[c + 1 := fill_ia es m t ! (c + 1) + 1] ! j = fill_ia es m (Suc t) ! j"
    using j c t by (auto simp: nth_list_update fill_ia_nth bucket_take_Suc)
qed

lemma bucket_slot_bound:
  fixes es :: "(nat \<times> 'b) list"
  assumes t: "t < length es" and c: "fst (es ! t) = c"
  shows "bucket_start (map fst es) c + length (bucket (take t es) c) < length es"
proof -
  have "bucket_start (map fst es) c + length (bucket (take t es) c)
          < bucket_start (map fst es) c + length (bucket es c)"
    using bucket_take_less [OF t c] by simp
  also have "\<dots> = bucket_start (map fst es) (Suc c)" by (simp add: bucket_start_Suc)
  also have "\<dots> \<le> length (map fst es)" unfolding bucket_start_def by (rule length_filter_le)
  finally show ?thesis by simp
qed

lemma bucket_slots_disjoint:
  fixes es :: "(nat \<times> 'b) list"
  assumes "c' \<noteq> c" "q < length (bucket (take t es) c')" "r \<le> length (bucket (take t es) c)"
    "r < length (bucket es c)"
  shows "bucket_start (map fst es) c' + q \<noteq> bucket_start (map fst es) c + r"
proof (cases "c' < c")
  case True
  have "bucket_start (map fst es) c' + q < bucket_start (map fst es) c' + length (bucket es c')"
    using assms(2) bucket_take_le [of t es c'] by simp
  also have "\<dots> = bucket_start (map fst es) (Suc c')" by (simp add: bucket_start_Suc)
  also have "\<dots> \<le> bucket_start (map fst es) c" using True by (intro bucket_start_mono) simp
  finally show ?thesis by simp
next
  case False
  hence lt: "c < c'" using assms(1) by simp
  have "bucket_start (map fst es) c + r < bucket_start (map fst es) c + length (bucket es c)"
    using assms(4) by simp
  also have "\<dots> = bucket_start (map fst es) (Suc c)" by (simp add: bucket_start_Suc)
  also have "\<dots> \<le> bucket_start (map fst es) c'" using lt by (intro bucket_start_mono) simp
  finally show ?thesis by simp
qed

lemma fill_invariant:
  fixes es :: "(nat \<times> 'b) list"
  assumes keys: "\<forall>e \<in> set es. fst e < m" and len0: "length out0 = length es" and t: "t \<le> length es"
  shows "fst (fold place (take t es) (fill_ia es m 0, out0)) = fill_ia es m t
       \<and> length (snd (fold place (take t es) (fill_ia es m 0, out0))) = length es
       \<and> (\<forall>c<m. \<forall>q<length (bucket (take t es) c).
             snd (fold place (take t es) (fill_ia es m 0, out0)) ! (bucket_start (map fst es) c + q)
               = bucket (take t es) c ! q)"
  using t
proof (induction t)
  case 0 show ?case using len0 by (simp add: bucket_def)
next
  case (Suc t)
  hence t: "t < length es" by simp
  define s where "s = fold place (take t es) (fill_ia es m 0, out0)"
  define c where "c = fst (es ! t)"
  define x where "x = snd (es ! t)"
  define k where "k = bucket_start (map fst es) c + length (bucket (take t es) c)"
  have IH: "fst s = fill_ia es m t" "length (snd s) = length es"
    "\<And>c q. c < m \<Longrightarrow> q < length (bucket (take t es) c)
       \<Longrightarrow> snd s ! (bucket_start (map fst es) c + q) = bucket (take t es) c ! q"
    using Suc.IH t unfolding s_def by auto
  have c: "c < m" using keys t unfolding c_def by simp
  have e: "es ! t = (c, x)" by (simp add: c_def x_def)
  have kval: "fst s ! (c + 1) = k" using c by (simp add: IH(1) fill_ia_nth k_def)
  have kbound: "k < length es" unfolding k_def using bucket_slot_bound [OF t] c_def by simp
  have "fold place (take (Suc t) es) (fill_ia es m 0, out0) = place (es ! t) s"
    using t by (simp add: take_Suc_conv_app_nth s_def)
  also have "\<dots> = ((fst s)[c + 1 := k + 1], (snd s)[k := x])"
    using kval by (simp add: e place_def case_prod_unfold)
  finally have step: "fold place (take (Suc t) es) (fill_ia es m 0, out0)
              = ((fst s)[c + 1 := k + 1], (snd s)[k := x])" .
  have 1: "(fst s)[c + 1 := k + 1] = fill_ia es m (Suc t)"
    using fill_ia_step [OF t _ c, of ] c_def kval IH(1) by simp
  have 3: "(snd s)[k := x] ! (bucket_start (map fst es) c' + q) = bucket (take (Suc t) es) c' ! q"
    if c': "c' < m" and q: "q < length (bucket (take (Suc t) es) c')" for c' q
  proof (cases "c' = c")
    case True
    show ?thesis
    proof (cases "q = length (bucket (take t es) c)")
      case True
      thus ?thesis using \<open>c' = c\<close> kbound IH(2) t e
        by (simp add: k_def bucket_take_Suc nth_append)
    next
      case False
      hence q': "q < length (bucket (take t es) c)"
        using q \<open>c' = c\<close> t e by (simp add: bucket_take_Suc)
      have "bucket_start (map fst es) c + q \<noteq> k" using False by (simp add: k_def)
      thus ?thesis using \<open>c' = c\<close> q' IH(3) [OF c q'] t
        by (simp add: bucket_take_Suc nth_append)
    qed
  next
    case False
    hence q': "q < length (bucket (take t es) c')"
      using q t e by (simp add: bucket_take_Suc)
    have "bucket_start (map fst es) c' + q \<noteq> k"
      unfolding k_def
      using bucket_slots_disjoint [OF False q' order_refl] bucket_take_less [OF t] c_def by simp
    thus ?thesis using False q' IH(3) [OF c' q'] t e
      by (simp add: bucket_take_Suc)
  qed
  show ?case unfolding step using 1 3 IH(2) by simp
qed

lemma fill_ia_final:
  "fill_ia es m (length es) = map (bucket_start (map fst es)) [0 ..< Suc m]"
proof (rule nth_equalityI)
  show "length (fill_ia es m (length es)) = length (map (bucket_start (map fst es)) [0 ..< Suc m])"
    by (simp del: upt_Suc)
next
  fix j assume "j < length (fill_ia es m (length es))"
  hence j: "j < Suc m" by simp
  show "fill_ia es m (length es) ! j = map (bucket_start (map fst es)) [0 ..< Suc m] ! j"
  proof (cases j)
    case 0 thus ?thesis using j by (simp add: fill_ia_nth bucket_start_def del: upt_Suc)
  next
    case (Suc i)
    thus ?thesis using j bucket_start_Suc [of es i] by (simp add: fill_ia_nth del: upt_Suc)
  qed
qed

lemma fill_ia_initial:
  "fill_ia es m 0 = map (\<lambda>j. bucket_start (map fst es) (j - 1)) [0 ..< Suc m]"
  by (auto simp: fill_ia_def bucket_def bucket_start_def simp del: upt_Suc)

lemma fill_result:
  fixes es :: "(nat \<times> 'b) list"
  assumes keys: "\<forall>e \<in> set es. fst e < m" and len0: "length out0 = length es"
  shows "fold place es (map (\<lambda>j. bucket_start (map fst es) (j - 1)) [0 ..< Suc m], out0)
         = (map (bucket_start (map fst es)) [0 ..< Suc m], concat (map (bucket es) [0 ..< m]))"
proof -
  let ?s = "fold place es (fill_ia es m 0, out0)"
  have inv: "fst ?s = fill_ia es m (length es)" "length (snd ?s) = length es"
    "\<And>c q. c < m \<Longrightarrow> q < length (bucket es c)
        \<Longrightarrow> snd ?s ! (bucket_start (map fst es) c + q) = bucket es c ! q"
    using fill_invariant [OF keys len0, of "length es"] by auto
  have total: "length (concat (map (bucket es) [0 ..< m])) = length es"
    using concat_buckets_length [of m m es] bucket_start_all [of "map fst es" m] keys by simp
  have "snd ?s = concat (map (bucket es) [0 ..< m])"
  proof (rule concat_eqI)
    show "length (snd ?s) = length (concat (map (bucket es) [0 ..< m]))"
      using inv(2) total by simp
  next
    fix c q assume "c < length (map (bucket es) [0 ..< m])" "q < length (map (bucket es) [0 ..< m] ! c)"
    hence c: "c < m" and q: "q < length (bucket es c)" by simp_all
    show "snd ?s ! (length (concat (take c (map (bucket es) [0 ..< m]))) + q)
          = map (bucket es) [0 ..< m] ! c ! q"
      using inv(3) [OF c q] c by (simp add: concat_buckets_length)
  qed
  thus ?thesis using inv(1) by (simp add: fill_ia_final fill_ia_initial prod_eq_iff)
qed

lemma fold_concat_rows: "fold f (concat xss) s = fold (fold f) xss s"
  by (induction xss arbitrary: s) simp_all

lemma fill_rows_positions:
  "fold (trans_fill_row A) [0 ..< row A] s
   = fold (\<lambda>(i, p). trans_place (JA A) (val A) i p) (positions A) s"
proof -
  have "fold (\<lambda>(i, p). trans_place (JA A) (val A) i p) (positions A) s
        = fold (fold (\<lambda>(i, p). trans_place (JA A) (val A) i p))
            (map (\<lambda>i. map (Pair i) [IA A ! i ..< IA A ! Suc i]) [0 ..< row A]) s"
    unfolding positions_def by (simp only: fold_concat_rows)
  also have "\<dots> = fold (\<lambda>i. fold (\<lambda>(i, p). trans_place (JA A) (val A) i p)
                               (map (Pair i) [IA A ! i ..< IA A ! Suc i])) [0 ..< row A] s"
    by (simp add: fold_map comp_def)
  also have "\<dots> = fold (trans_fill_row A) [0 ..< row A] s"
  proof -
    have "(\<lambda>i. fold (\<lambda>(i, p). trans_place (JA A) (val A) i p)
                 (map (Pair i) [IA A ! i ..< IA A ! Suc i])) = trans_fill_row A"
      by (rule ext) (simp add: trans_fill_row_def fold_map comp_def)
    thus ?thesis by simp
  qed
  finally show ?thesis by simp
qed

lemma place_projection_None:
  "fold (\<lambda>(i, p). trans_place ja None i p) ps (tia, tja, ta)
   = (fst (fold place (map (\<lambda>(i, p). (ja ! p, i)) ps) (tia, tja)),
      snd (fold place (map (\<lambda>(i, p). (ja ! p, i)) ps) (tia, tja)), ta)"
  by (induction ps arbitrary: tia tja) (auto simp: trans_place_def place_def Let_def)

lemma place_projection_Some:
  "fold (\<lambda>(i, p). trans_place ja (Some av) i p) ps (tia, tja, ta)
   = (fst (fold place (map (\<lambda>(i, p). (ja ! p, i)) ps) (tia, tja)),
      snd (fold place (map (\<lambda>(i, p). (ja ! p, i)) ps) (tia, tja)),
      snd (fold place (map (\<lambda>(i, p). (ja ! p, av ! p)) ps) (tia, ta)))"
  by (induction ps arbitrary: tia tja ta) (auto simp: trans_place_def place_def Let_def)

lemma place_projection:
  "fold (\<lambda>(i, p). trans_place ja a i p) ps (tia, tja, ta)
   = (fst (fold place (map (\<lambda>(i, p). (ja ! p, i)) ps) (tia, tja)),
      snd (fold place (map (\<lambda>(i, p). (ja ! p, i)) ps) (tia, tja)),
      (case a of None \<Rightarrow> ta
       | Some av \<Rightarrow> snd (fold place (map (\<lambda>(i, p). (ja ! p, av ! p)) ps) (tia, ta))))"
  by (cases a) (simp_all add: place_projection_None place_projection_Some)

lemma length_positions: "csr_wf M \<Longrightarrow> length (positions M) = nnz M"
  using positions_snd [of M] by (metis length_map length_upt diff_zero)

lemma keyed_keys: "csr_wf M \<Longrightarrow> map fst (keyed M f) = JA M"
  using positions_keys [of M] by (simp add: keyed_def comp_def case_prod_unfold)

lemma csr_trans_arrays:
  fixes A :: "('a::zero) CSRmat"
  assumes wf: "csr_wf A"
  shows "IA (csr_trans A) = map (bucket_start (JA A)) [0 ..< Suc (col A)]"
    and "JA (csr_trans A) = concat (map (bucket (keyed A fst)) [0 ..< col A])"
    and "val A = Some av \<Longrightarrow>
         val (csr_trans A) = Some (concat (map (bucket (keyed A (\<lambda>(i, p). av ! p))) [0 ..< col A]))"
    and "val A = None \<Longrightarrow> val (csr_trans A) = None"
    and "row (csr_trans A) = col A" "col (csr_trans A) = row A" "nnz (csr_trans A) = nnz A"
proof -
  let ?m = "col A" and ?nz = "nnz A" and ?ja = "JA A"
  have len: "length ?ja = ?nz" and keys: "\<forall>k \<in> set ?ja. k < ?m"
    using wf by (auto simp: csr_wf_def in_set_conv_nth)
  define tia2 where "tia2 = map (\<lambda>j. bucket_start ?ja (j - 1)) [0 ..< Suc ?m]"
  have c1: "fold (trans_count ?m ?ja) [0 ..< ?nz] (replicate (Suc ?m) 0)
            = map (\<lambda>j. if 2 \<le> j then length (filter (\<lambda>k. k + 2 = j) ?ja) else 0) [0 ..< Suc ?m]"
    using count_phase [of ?nz ?ja ?m] len by simp
  have c2: "fold trans_accum [2 ..< Suc ?m]
              (fold (trans_count ?m ?ja) [0 ..< ?nz] (replicate (Suc ?m) 0)) = tia2"
  proof (cases "2 \<le> Suc ?m")
    case True
    show ?thesis unfolding c1 tia2_def
      by (subst accum_phase [OF order_refl True]) (auto simp del: upt_Suc)
  next
    case False
    hence "?m = 0" by simp
    thus ?thesis unfolding c1 tia2_def by (simp add: bucket_start_def)
  qed
  define out where "out = fold (trans_fill_row A) [0 ..< row A]
      (tia2, replicate ?nz 0, replicate (case val A of None \<Rightarrow> 0 | Some _ \<Rightarrow> ?nz) 0)"
  have T: "csr_trans A = \<lparr> row = ?m, col = row A, nnz = ?nz, IA = fst out, JA = fst (snd out),
             val = (case val A of None \<Rightarrow> None | Some _ \<Rightarrow> Some (snd (snd out))) \<rparr>"
    unfolding csr_trans_def Let_def out_def
    using c2 by (simp add: case_prod_unfold)
  have k1: "map fst (keyed A fst) = ?ja" and l1: "length (keyed A fst) = ?nz"
    using wf by (simp_all add: keyed_keys) (simp add: keyed_def length_positions)
  have f1: "fold place (keyed A fst) (tia2, replicate ?nz 0)
            = (map (bucket_start ?ja) [0 ..< Suc ?m], concat (map (bucket (keyed A fst)) [0 ..< ?m]))"
  proof -
    from keys have "\<forall>k \<in> set (map fst (keyed A fst)). k < ?m" by (simp only: k1)
    hence "\<forall>e \<in> set (keyed A fst). fst e < ?m" by simp
    from fill_result [OF this, of "replicate ?nz 0"] l1 show ?thesis
      unfolding tia2_def k1 by simp
  qed
  show "row (csr_trans A) = col A" "col (csr_trans A) = row A" "nnz (csr_trans A) = nnz A"
    by (simp_all add: T)
  have proj: "out = (fst (fold place (keyed A fst) (tia2, replicate ?nz 0)),
                     snd (fold place (keyed A fst) (tia2, replicate ?nz 0)),
                     (case val A of None \<Rightarrow> replicate 0 0
                      | Some av \<Rightarrow> snd (fold place (keyed A (\<lambda>(i, p). av ! p)) (tia2, replicate ?nz 0))))"
    unfolding out_def fill_rows_positions
    using place_projection [of ?ja "val A" "positions A" tia2]
    by (auto simp: keyed_def case_prod_unfold split: option.splits)
  show "IA (csr_trans A) = map (bucket_start (JA A)) [0 ..< Suc (col A)]"
    by (simp add: T proj f1)
  show "JA (csr_trans A) = concat (map (bucket (keyed A fst)) [0 ..< col A])"
    by (simp add: T proj f1)
  show "val A = None \<Longrightarrow> val (csr_trans A) = None"
    by (simp add: T)
  show "val (csr_trans A) = Some (concat (map (bucket (keyed A (\<lambda>(i, p). av ! p))) [0 ..< col A]))"
    if v: "val A = Some av"
  proof -
    have k2: "map fst (keyed A (\<lambda>(i, p). av ! p)) = ?ja" and l2: "length (keyed A (\<lambda>(i, p). av ! p)) = ?nz"
      using wf by (simp_all add: keyed_keys) (simp add: keyed_def length_positions)
    have f2: "fold place (keyed A (\<lambda>(i, p). av ! p)) (tia2, replicate ?nz 0)
            = (map (bucket_start ?ja) [0 ..< Suc ?m],
               concat (map (bucket (keyed A (\<lambda>(i, p). av ! p))) [0 ..< ?m]))"
    proof -
      from keys have "\<forall>k \<in> set (map fst (keyed A (\<lambda>(i, p). av ! p))). k < ?m" by (simp only: k2)
      hence "\<forall>e \<in> set (keyed A (\<lambda>(i, p). av ! p)). fst e < ?m" by simp
      from fill_result [OF this, of "replicate ?nz 0"] l2 show ?thesis
        unfolding tia2_def k2 by simp
    qed
    show ?thesis by (simp add: T proj v f2)
  qed
qed

lemma bucket_keyed: "bucket (keyed M f) c = map f (col_positions M c)"
  unfolding bucket_def keyed_def col_positions_def
  by (induction "positions M") (auto simp: case_prod_unfold filter_map comp_def)

lemma bucket_slice:
  assumes "map fst es = ks" "c < m"
  shows "map ((!) (concat (map (bucket es) [0 ..< m]))) [bucket_start ks c ..< bucket_start ks (Suc c)]
         = bucket es c"
  using nth_concat_slice [of c "map (bucket es) [0 ..< m]"] assms
    concat_buckets_length [of c m es] concat_buckets_length [of "Suc c" m es]
  by simp

lemma trans_row_cols:
  fixes A :: "('a::zero) CSRmat"
  assumes "csr_wf A" "c < col A"
  shows "row_cols (csr_trans A) c = map fst (col_positions A c)"
proof -
  have "row_cols (csr_trans A) c
        = map ((!) (concat (map (bucket (keyed A fst)) [0 ..< col A])))
            [bucket_start (JA A) c ..< bucket_start (JA A) (Suc c)]"
    using assms by (simp add: row_cols_def csr_trans_arrays del: upt_Suc)
  thus ?thesis using bucket_slice [OF keyed_keys [OF assms(1)] assms(2)] by (simp add: bucket_keyed)
qed

lemma trans_row_vals:
  fixes A :: "('a::zero) CSRmat"
  assumes "csr_wf A" "c < col A" "val A = Some av"
  shows "row_vals (csr_trans A) c = map (\<lambda>(i, p). av ! p) (col_positions A c)"
proof -
  have "row_vals (csr_trans A) c
        = map ((!) (concat (map (bucket (keyed A (\<lambda>(i, p). av ! p))) [0 ..< col A])))
            [bucket_start (JA A) c ..< bucket_start (JA A) (Suc c)]"
    using assms by (simp add: row_vals_def vals_def csr_trans_arrays del: upt_Suc)
  thus ?thesis using bucket_slice [OF keyed_keys [OF assms(1)] assms(2)] by (simp add: bucket_keyed)
qed

lemma row_entries_zip:
  "row_entries M i = map (\<lambda>(j, v). (i, j, v)) (zip (row_cols M i) (row_vals M i))"
  unfolding row_entries_def row_cols_def row_vals_def
  by (simp add: zip_map_map comp_def zip_same_conv_map)

lemma trans_row_entries:
  fixes A :: "('a::zero) CSRmat"
  assumes "csr_wf A" "c < col A" "val A = Some av"
  shows "row_entries (csr_trans A) c = map (\<lambda>(i, p). (JA A ! p, i, av ! p)) (col_positions A c)"
proof -
  have "row_entries (csr_trans A) c
        = map (\<lambda>(j, v). (c, j, v)) (zip (map fst (col_positions A c))
                                         (map (\<lambda>(i, p). av ! p) (col_positions A c)))"
    using assms by (simp add: row_entries_zip trans_row_cols trans_row_vals)
  also have "\<dots> = map (\<lambda>(i, p). (c, i, av ! p)) (col_positions A c)"
    by (simp add: zip_map_map comp_def zip_same_conv_map case_prod_unfold)
  also have "\<dots> = map (\<lambda>(i, p). (JA A ! p, i, av ! p)) (col_positions A c)"
    by (rule map_cong) (auto simp: col_positions_def)
  finally show ?thesis .
qed

lemma entries_positions:
  "val M = Some av \<Longrightarrow> entries M = map (\<lambda>(i, p). (i, JA M ! p, av ! p)) (positions M)"
  by (simp add: entries_def row_entries_def [abs_def] positions_def map_concat comp_def vals_def)

lemma mset_by_key:
  assumes "\<forall>x \<in> set xs. key x < m"
  shows "mset (concat (map (\<lambda>c. map h (filter (\<lambda>x. key x = c) xs)) [0 ..< m])) = mset (map h xs)"
proof -
  have *: "mset (concat (map (\<lambda>c. map h (filter (\<lambda>x. key x = c) xs)) [0 ..< n]))
        = mset (map h (filter (\<lambda>x. key x < n) xs))" for n
  proof (induction n)
    case 0 show ?case by simp
  next
    case (Suc n)
    have "mset (filter (\<lambda>x. key x < Suc n) xs)
          = mset (filter (\<lambda>x. key x < n) xs) + mset (filter (\<lambda>x. key x = n) xs)"
      by (induction xs) (auto simp: less_Suc_eq)
    hence "mset (map h (filter (\<lambda>x. key x < Suc n) xs))
          = mset (map h (filter (\<lambda>x. key x < n) xs)) + mset (map h (filter (\<lambda>x. key x = n) xs))"
      by (metis image_mset_union mset_map)
    thus ?case using Suc by simp
  qed
  have "filter (\<lambda>x. key x < m) xs = xs" using assms by (simp add: filter_id_conv)
  thus ?thesis using * [of m] by simp
qed

lemma positions_set:
  assumes "csr_wf M" "(i, p) \<in> set (positions M)"
  shows "i < row M" "p < nnz M"
proof -
  show "i < row M" using assms(2) by (auto simp: positions_def)
  have "p \<in> set (map snd (positions M))" using assms(2) by force
  thus "p < nnz M" using positions_snd [OF assms(1)] by simp
qed

lemma trans_entries:
  fixes A :: "('a::zero) CSRmat"
  assumes wf: "csr_wf A" and v: "val A = Some av"
  shows "mset (entries (csr_trans A)) = image_mset swap_entry (mset (entries A))"
proof -
  have keys: "\<forall>x \<in> set (positions A). (\<lambda>(i, p). JA A ! p) x < col A"
    using wf positions_set [OF wf] by (auto simp: csr_wf_def)
  have eq: "map (row_entries (csr_trans A)) [0 ..< col A]
        = map (\<lambda>c. map (\<lambda>(i, p). (JA A ! p, i, av ! p)) (col_positions A c)) [0 ..< col A]"
    by (rule map_cong) (simp_all add: trans_row_entries [OF wf _ v])
  have "entries (csr_trans A) = concat (map (row_entries (csr_trans A)) [0 ..< col A])"
    by (simp add: entries_def csr_trans_arrays(5) [OF wf])
  hence "entries (csr_trans A)
        = concat (map (\<lambda>c. map (\<lambda>(i, p). (JA A ! p, i, av ! p)) (col_positions A c)) [0 ..< col A])"
    by (simp only: eq)
  hence "mset (entries (csr_trans A)) = mset (map (\<lambda>(i, p). (JA A ! p, i, av ! p)) (positions A))"
    using mset_by_key [OF keys, of "\<lambda>(i, p). (JA A ! p, i, av ! p)"]
    by (simp add: col_positions_def case_prod_unfold)
  also have "\<dots> = image_mset swap_entry (mset (entries A))"
    by (simp add: entries_positions [OF v] swap_entry_def multiset.map_comp comp_def case_prod_unfold)
  finally show ?thesis .
qed

lemma sorted_positions: "sorted (map fst (positions M))"
proof -
  have "sorted (map fst (concat (map (\<lambda>i. map (Pair i) [IA M ! i ..< IA M ! Suc i]) [0 ..< n])))
        \<and> (\<forall>x \<in> set (concat (map (\<lambda>i. map (Pair i) [IA M ! i ..< IA M ! Suc i]) [0 ..< n])). fst x < n)"
    for n
  proof (induction n)
    case 0 show ?case by simp
  next
    case (Suc n)
    have "sorted (map (\<lambda>x. n) [IA M ! n ..< IA M ! Suc n])"
      by (simp only: map_replicate_const sorted_replicate)
    thus ?case using Suc by (auto simp: sorted_append comp_def less_Suc_eq intro: less_imp_le)
  qed
  thus ?thesis unfolding positions_def by blast
qed

lemma trans_rows_sorted:
  fixes A :: "('a::zero) CSRmat"
  assumes "csr_wf A" "c < col A"
  shows "sorted (row_cols (csr_trans A) c)"
  unfolding trans_row_cols [OF assms] col_positions_def
  by (rule sorted_filter) (rule sorted_positions)

lemma trans_wf:
  fixes A :: "('a::zero) CSRmat"
  assumes wf: "csr_wf A"
  shows "csr_wf (csr_trans A)"
proof -
  let ?T = "csr_trans A" and ?m = "col A" and ?ja = "JA A"
  note arr = csr_trans_arrays [OF wf]
  have len: "length ?ja = nnz A" and keys: "\<forall>k \<in> set ?ja. k < ?m"
    using wf by (auto simp: csr_wf_def in_set_conv_nth)
  have ia: "\<And>j. j < Suc ?m \<Longrightarrow> IA ?T ! j = bucket_start ?ja j"
    by (simp add: arr(1) del: upt_Suc)
  have jalen: "length (JA ?T) = nnz A"
    using concat_buckets_length [of ?m ?m "keyed A fst"] keyed_keys [OF wf, of fst]
      bucket_start_all [OF keys] len
    by (simp add: arr(2))
  have "\<forall>k \<in> {0 ..< nnz ?T}. JA ?T ! k < col ?T"
  proof
    fix k assume "k \<in> {0 ..< nnz ?T}"
    hence "JA ?T ! k \<in> set (JA ?T)" using jalen by (simp add: arr(7))
    then obtain c where "JA ?T ! k \<in> set (bucket (keyed A fst) c)" by (auto simp: arr(2))
    hence "JA ?T ! k \<in> fst ` set (positions A)" by (auto simp: bucket_keyed col_positions_def)
    thus "JA ?T ! k < col ?T" using positions_set(1) [OF wf] by (auto simp: arr(6))
  qed
  moreover have "\<forall>i \<in> {0 ..< row ?T}. IA ?T ! i \<le> IA ?T ! Suc i"
    by (simp add: arr(5) ia bucket_start_mono)
  moreover have "IA ?T ! 0 = 0" by (simp add: ia bucket_start_def)
  moreover have "IA ?T ! row ?T = nnz ?T"
    using bucket_start_all [OF keys] len by (simp add: arr(5) arr(7) ia)
  moreover have "length (IA ?T) = row ?T + 1" by (simp add: arr(1) arr(5) del: upt_Suc)
  ultimately show ?thesis using jalen unfolding csr_wf_def by (simp add: arr(7))
qed

lemma trans_dcsr_wf:
  assumes "dcsr_wf A"
  shows "dcsr_wf (csr_trans A)"
proof -
  have wf: "csr_wf A" using assms by (simp add: dcsr_wf_def)
  obtain av where v: "val A = Some av" "length av = nnz A"
    using assms by (auto simp: dcsr_wf_def split: option.splits)
  have keys: "\<forall>k \<in> set (JA A). k < col A" and len: "length (JA A) = nnz A"
    using wf by (auto simp: csr_wf_def in_set_conv_nth)
  have "length (concat (map (bucket (keyed A (\<lambda>(i, p). av ! p))) [0 ..< col A])) = nnz A"
    using concat_buckets_length [of "col A" "col A" "keyed A (\<lambda>(i, p). av ! p)"]
      keyed_keys [OF wf, of "\<lambda>(i, p). av ! p"] bucket_start_all [OF keys] len
    by simp
  thus ?thesis
    using trans_wf [OF wf] csr_trans_arrays(3) [OF wf v(1)] csr_trans_arrays(7) [OF wf]
    by (simp add: dcsr_wf_def)
qed

lemma swap_entry_twice: "image_mset swap_entry (image_mset swap_entry M) = M"
  by (simp add: multiset.map_comp comp_def swap_entry_def case_prod_unfold)

lemma edges_positions: "edges M = map (\<lambda>(i, p). (i, JA M ! p)) (positions M)"
  by (simp add: edges_def row_cols_def positions_def map_concat comp_def)

lemma trans_edges:
  fixes S :: "('a::zero) CSRmat"
  assumes wf: "csr_wf S"
  shows "mset (edges (csr_trans S)) = image_mset prod.swap (mset (edges S))"
proof -
  have keys: "\<forall>x \<in> set (positions S). (\<lambda>(i, p). JA S ! p) x < col S"
    using wf positions_set [OF wf] by (auto simp: csr_wf_def)
  have eq: "map (\<lambda>c. map (Pair c) (row_cols (csr_trans S) c)) [0 ..< col S]
        = map (\<lambda>c. map (\<lambda>(i, p). (JA S ! p, i)) (col_positions S c)) [0 ..< col S]"
    by (rule map_cong) (auto simp: trans_row_cols [OF wf] col_positions_def)
  have "edges (csr_trans S) = concat (map (\<lambda>c. map (Pair c) (row_cols (csr_trans S) c)) [0 ..< col S])"
    by (simp add: edges_def csr_trans_arrays(5) [OF wf])
  hence "edges (csr_trans S)
         = concat (map (\<lambda>c. map (\<lambda>(i, p). (JA S ! p, i)) (col_positions S c)) [0 ..< col S])"
    by (simp only: eq)
  hence "mset (edges (csr_trans S)) = mset (map (\<lambda>(i, p). (JA S ! p, i)) (positions S))"
    using mset_by_key [OF keys, of "\<lambda>(i, p). (JA S ! p, i)"]
    by (simp add: col_positions_def case_prod_unfold)
  also have "\<dots> = image_mset prod.swap (mset (edges S))"
    by (simp add: edges_positions multiset.map_comp comp_def case_prod_unfold)
  finally show ?thesis .
qed

text \<open>
  The transposition of the strength graphs: \<open>fasp_icsr_trans\<close> gives a well-formed matrix
  with swapped dimensions and the reversed edges, each row in increasing order.
\<close>

lemma fasp_icsr_trans_exact:
  assumes "csr_wf S"
  shows "row (fasp_icsr_trans S) = col S \<and> col (fasp_icsr_trans S) = row S
       \<and> nnz (fasp_icsr_trans S) = nnz S \<and> csr_wf (fasp_icsr_trans S)
       \<and> mset (edges (fasp_icsr_trans S)) = image_mset prod.swap (mset (edges S))
       \<and> (\<forall>c<col S. sorted (row_cols (fasp_icsr_trans S) c))"
  using assms csr_trans_arrays(5-7) [OF assms] trans_wf [OF assms] trans_edges [OF assms]
    trans_rows_sorted [OF assms]
  by (simp add: fasp_icsr_trans_def)

text \<open>
  C10. For a well-formed matrix \<open>A\<close> with values, \<open>fasp_dcsr_trans\<close> gives a well-formed
  matrix with the dimensions swapped and the same \<open>nnz\<close>, whose entries are the entries
  of \<open>A\<close> with row and column swapped (as multisets: every entry as often as in \<open>A\<close>).
  Transposing twice gives a matrix of the dimensions of \<open>A\<close> with the entries of \<open>A\<close>,
  the columns of every row in increasing order.
\<close>

theorem fasp_dcsr_trans_exact:
  assumes "dcsr_wf A"
  shows "row (fasp_dcsr_trans A) = col A \<and> col (fasp_dcsr_trans A) = row A
       \<and> nnz (fasp_dcsr_trans A) = nnz A \<and> dcsr_wf (fasp_dcsr_trans A)
       \<and> mset (entries (fasp_dcsr_trans A)) = image_mset swap_entry (mset (entries A))
       \<and> row (fasp_dcsr_trans (fasp_dcsr_trans A)) = row A
       \<and> col (fasp_dcsr_trans (fasp_dcsr_trans A)) = col A
       \<and> nnz (fasp_dcsr_trans (fasp_dcsr_trans A)) = nnz A
       \<and> mset (entries (fasp_dcsr_trans (fasp_dcsr_trans A))) = mset (entries A)
       \<and> (\<forall>i<row A. sorted (row_cols (fasp_dcsr_trans (fasp_dcsr_trans A)) i))"
proof -
  let ?T = "csr_trans A"
  have wf: "csr_wf A" using assms by (simp add: dcsr_wf_def)
  obtain av where v: "val A = Some av" using assms by (auto simp: dcsr_wf_def split: option.splits)
  have dT: "dcsr_wf ?T" by (rule trans_dcsr_wf [OF assms])
  hence wfT: "csr_wf ?T" by (simp add: dcsr_wf_def)
  obtain tv where tv: "val ?T = Some tv" using dT by (auto simp: dcsr_wf_def split: option.splits)
  note a = csr_trans_arrays(5-7) [OF wf] and b = csr_trans_arrays(5-7) [OF wfT]
  have e1: "mset (entries ?T) = image_mset swap_entry (mset (entries A))"
    by (rule trans_entries [OF wf v])
  have e2: "mset (entries (csr_trans ?T)) = mset (entries A)"
    using trans_entries [OF wfT tv] by (simp add: e1 swap_entry_twice)
  have s: "\<forall>i<row A. sorted (row_cols (csr_trans ?T) i)"
    using trans_rows_sorted [OF wfT] by (simp add: a)
  show ?thesis
    unfolding fasp_dcsr_trans_def using a b dT e1 e2 s by simp
qed

theorem fasp_dcsr_trans_exact_witness:
  "dcsr_wf A23
   \<and> fasp_dcsr_trans A23 = \<lparr> row = 3, col = 2, nnz = 4, IA = [0, 1, 2, 4], JA = [0, 1, 0, 1],
                             val = Some [1, 7, 5, - 3] \<rparr>
   \<and> mset (entries (fasp_dcsr_trans A23)) = image_mset swap_entry (mset (entries A23))
   \<and> fasp_dcsr_trans (fasp_dcsr_trans A23)
       = \<lparr> row = 2, col = 3, nnz = 4, IA = [0, 2, 4], JA = [0, 2, 1, 2], val = Some [1, 5, 7, - 3] \<rparr>
   \<and> mset (entries (fasp_dcsr_trans (fasp_dcsr_trans A23))) = mset (entries A23)
   \<and> sorted (row_cols (fasp_dcsr_trans (fasp_dcsr_trans A23)) 0)
   \<and> sorted (row_cols (fasp_dcsr_trans (fasp_dcsr_trans A23)) 1)"
proof -
  have wf: "dcsr_wf A23" by code_simp
  have t1: "fasp_dcsr_trans A23 = \<lparr> row = 3, col = 2, nnz = 4, IA = [0, 1, 2, 4], JA = [0, 1, 0, 1],
                             val = Some [1, 7, 5, - 3] \<rparr>"
    by code_simp
  have t2: "fasp_dcsr_trans (fasp_dcsr_trans A23)
       = \<lparr> row = 2, col = 3, nnz = 4, IA = [0, 2, 4], JA = [0, 2, 1, 2], val = Some [1, 5, 7, - 3] \<rparr>"
    by code_simp
  have r: "row A23 = 2" by (simp add: A23_def)
  note th = fasp_dcsr_trans_exact [OF wf]
  from th have e1: "mset (entries (fasp_dcsr_trans A23)) = image_mset swap_entry (mset (entries A23))"
    and e2: "mset (entries (fasp_dcsr_trans (fasp_dcsr_trans A23))) = mset (entries A23)"
    and s: "\<forall>i<row A23. sorted (row_cols (fasp_dcsr_trans (fasp_dcsr_trans A23)) i)"
    by blast+
  from s have "sorted (row_cols (fasp_dcsr_trans (fasp_dcsr_trans A23)) 0)"
    "sorted (row_cols (fasp_dcsr_trans (fasp_dcsr_trans A23)) 1)"
    unfolding r by simp_all
  with wf t1 t2 e1 e2 show ?thesis by blast
qed

subsection \<open>Strength graph\<close>

lemma csr_wf_mono:
  assumes "csr_wf M" and "i \<le> j" and "j \<le> row M"
  shows "IA M ! i \<le> IA M ! j"
  using assms(2,3)
proof (induction j)
  case 0 then show ?case by simp
next
  case (Suc j)
  show ?case
  proof (cases "i = Suc j")
    case True then show ?thesis by simp
  next
    case False
    then have "i \<le> j" using Suc.prems by simp
    moreover have "IA M ! j \<le> IA M ! (j + 1)"
      using assms(1) Suc.prems by (simp add: csr_wf_def)
    ultimately show ?thesis using Suc by simp
  qed
qed

lemma csr_wf_le_nnz:
  assumes "csr_wf M" and "i \<le> row M"
  shows "IA M ! i \<le> nnz M"
  using csr_wf_mono [OF assms(1) assms(2) le_refl] assms(1) by (simp add: csr_wf_def)

lemma fold_update_opt_nth:
  assumes "k \<le> n"
  shows "length (fold (\<lambda>i d. case g i of None \<Rightarrow> d | Some v \<Rightarrow> d[i := h v]) [0 ..< k] (replicate n z)) = n \<and>
         (\<forall>i < n. fold (\<lambda>i d. case g i of None \<Rightarrow> d | Some v \<Rightarrow> d[i := h v]) [0 ..< k] (replicate n z) ! i =
            (if i < k then (case g i of None \<Rightarrow> z | Some v \<Rightarrow> h v) else z))"
  using assms
proof (induction k)
  case 0 then show ?case by simp
next
  case (Suc k)
  then show ?case
    by (auto simp: nth_list_update less_Suc_eq split: option.splits)
qed

lemma getdiag_nth:
  assumes "i < row A" and "row A \<le> col A"
  shows "fasp_dcsr_getdiag A ! i = diag_val A i"
  using fold_update_opt_nth [where k = "row A" and n = "row A" and z = 0
      and g = "\<lambda>i. first_diag (JA A) i [IA A ! i ..< IA A ! Suc i]" and h = "\<lambda>k. vals A ! k"] assms
  unfolding fasp_dcsr_getdiag_def diag_val_def
  by (simp add: min_absorb1)

lemma S_row_scale_eq: "S_row_scale aj js = Min (insert 0 (set (map (\<lambda>j. aj ! j) js)))"
proof -
  have "fold (\<lambda>j r. min r (aj ! j)) js r = Min (insert r (set (map (\<lambda>j. aj ! j) js)))" for r
  proof (induction js arbitrary: r)
    case Nil then show ?case by simp
  next
    case (Cons j js)
    have "Min (insert (min r (aj ! j)) (set (map (\<lambda>j. aj ! j) js))) =
          Min (insert r (insert (aj ! j) (set (map (\<lambda>j. aj ! j) js))))"
      by (cases "set (map (\<lambda>j. aj ! j) js) = {}") (simp_all add: min.assoc)
    then show ?case using Cons by simp
  qed
  then show ?thesis by (simp add: S_row_scale_def)
qed

lemma S_row_sum_eq: "S_row_sum aj js = sum_list (map (\<lambda>j. aj ! j) js)"
proof -
  have "fold (\<lambda>j s. s + aj ! j) js s = s + sum_list (map (\<lambda>j. aj ! j) js)" for s
    by (induction js arbitrary: s) (simp_all add: add.assoc)
  then show ?thesis by (simp add: S_row_sum_def)
qed

lemma fold_mark_cond:
  "length (fold (\<lambda>j S. if c j then S[j := v] else S) js S) = length S \<and>
   (\<forall>p < length S. fold (\<lambda>j S. if c j then S[j := v] else S) js S ! p =
      (if p \<in> set js \<and> c p then v else S ! p))"
proof (induction js arbitrary: S)
  case Nil then show ?case by simp
next
  case (Cons j js)
  show ?case
  proof (cases "c j")
    case True
    have "p < length S \<Longrightarrow> (S[j := v]) ! p = (if p = j then v else S ! p)" for p
      by (simp add: nth_list_update)
    then show ?thesis using Cons [of "S[j := v]"] True by auto
  next
    case False
    then show ?thesis using Cons [of S] by auto
  qed
qed

lemma fold_mark_all:
  "length (fold (\<lambda>j S. S[j := v]) js S) = length S \<and>
   (\<forall>p < length S. fold (\<lambda>j S. S[j := v]) js S ! p = (if p \<in> set js then v else S ! p))"
  using fold_mark_cond [of "\<lambda>_. True" v js S] by simp

lemma first_diag_in: "first_diag ja i js = Some k \<Longrightarrow> k \<in> set js"
  unfolding first_diag_def
  by (auto split: list.splits dest!: arg_cong [where f = set])

lemma S_mark_row_nth:
  "length (S_mark_row sr mrs eps A diag i S) = length S \<and>
   (\<forall>p < length S. S_mark_row sr mrs eps A diag i S ! p =
      (if p \<in> {IA A ! i ..< IA A ! Suc i} \<and> \<not> kept_code sr mrs eps A diag i p then - 1 else S ! p))"
proof -
  let ?js = "[IA A ! i ..< IA A ! Suc i]"
  let ?S1 = "case first_diag (JA A) i ?js of None \<Rightarrow> S | Some j \<Rightarrow> S[j := - 1]"
  let ?cap = "\<bar>S_row_sum (vals A) ?js\<bar> / max sr \<bar>diag ! i\<bar> > mrs \<and> mrs < 1"
  let ?c = "\<lambda>j. vals A ! j \<ge> eps * S_row_scale (vals A) ?js"
  have l1: "length ?S1 = length S" by (simp split: option.splits)
  have n1: "?S1 ! p = (if first_diag (JA A) i ?js = Some p then - 1 else S ! p)" if "p < length S" for p
    using that by (auto simp: nth_list_update split: option.splits)
  have in1: "first_diag (JA A) i ?js = Some p \<Longrightarrow> p \<in> {IA A ! i ..< IA A ! Suc i}" for p
    using first_diag_in [of "JA A" i ?js p] by simp
  show ?thesis
  proof (cases ?cap)
    case True
    then have eq: "S_mark_row sr mrs eps A diag i S = fold (\<lambda>j S. S[j := - 1]) ?js ?S1"
      by (simp add: S_mark_row_def Let_def)
    have k: "\<not> kept_code sr mrs eps A diag i p" for p
      using True by (simp add: kept_code_def Let_def)
    show ?thesis
      unfolding eq using fold_mark_all [of "- 1" ?js ?S1] in1
      by (auto simp: l1 n1 k)
  next
    case False
    then have eq: "S_mark_row sr mrs eps A diag i S =
        fold (\<lambda>j S. if ?c j then S[j := - 1] else S) ?js ?S1"
      by (simp only: S_mark_row_def Let_def if_False)
    have k: "kept_code sr mrs eps A diag i p \<longleftrightarrow> first_diag (JA A) i ?js \<noteq> Some p \<and> \<not> ?c p" for p
      by (simp only: kept_code_def Let_def False not_False_eq_True simp_thms)
    show ?thesis
      unfolding eq using fold_mark_cond [of ?c "- 1" ?js ?S1] in1
      by (auto simp: l1 n1 k)
  qed
qed


lemma fold_S_mark_rows:
  "length (fold (S_mark_row sr mrs eps A diag) [0 ..< k] S) = length S \<and>
   (\<forall>p < length S. fold (S_mark_row sr mrs eps A diag) [0 ..< k] S ! p =
      (if \<exists>i < k. p \<in> {IA A ! i ..< IA A ! Suc i} \<and> \<not> kept_code sr mrs eps A diag i p
       then - 1 else S ! p))"
proof (induction k)
  case 0 then show ?case by simp
next
  case (Suc k)
  let ?M = "fold (S_mark_row sr mrs eps A diag) [0 ..< k] S"
  have step: "fold (S_mark_row sr mrs eps A diag) [0 ..< Suc k] S = S_mark_row sr mrs eps A diag k ?M"
    by simp
  show ?case
    unfolding step using S_mark_row_nth [of sr mrs eps A diag k ?M] Suc
    by (auto simp: less_Suc_eq)
qed

lemma csr_wf_row_unique:
  assumes "csr_wf M" and "i < row M" and "i' < row M"
    and "p \<in> {IA M ! i ..< IA M ! Suc i}" and "p \<in> {IA M ! i' ..< IA M ! Suc i'}"
  shows "i = i'"
proof (rule ccontr)
  assume ne: "i \<noteq> i'"
  have aux: False if "a < b" "b < row M" "p < IA M ! Suc a" "IA M ! b \<le> p" for a b
  proof -
    have "IA M ! Suc a \<le> IA M ! b"
      using that by (intro csr_wf_mono [OF assms(1)]) auto
    then show False using that by simp
  qed
  show False
  proof (cases "i < i'")
    case True then show ?thesis using aux [of i i'] assms by auto
  next
    case False
    then have "i' < i" using ne by simp
    then show ?thesis using aux [of i' i] assms by auto
  qed
qed

lemma compress_inner:
  fixes S :: "int list"
  assumes "index \<le> b" and "e \<le> length S"
  shows "case fold (\<lambda>j (SJA, index). if SJA ! j > - 1 then (SJA[index := SJA ! j], index + 1)
                                       else (SJA, index)) [b ..< e] (S, index) of
           (S', index') \<Rightarrow>
             length S' = length S \<and>
             index' = index + length (filter (\<lambda>j. S ! j > - 1) [b ..< e]) \<and>
             index' \<le> max b e \<and>
             take index' S' = take index S @ map (\<lambda>j. S ! j) (filter (\<lambda>j. S ! j > - 1) [b ..< e]) \<and>
             (\<forall>k. max b e \<le> k \<longrightarrow> S' ! k = S ! (k::nat))"
  using assms(2)
proof (induction e)
  case 0
  then show ?case using assms(1) by simp
next
  case (Suc e)
  let ?f = "\<lambda>j (SJA, index). if SJA ! j > (- 1 :: int) then (SJA[index := SJA ! j], index + 1)
                                       else (SJA, index)"
  show ?case
  proof (cases "b \<le> e")
    case False
    then have "[b ..< Suc e] = []" by simp
    then show ?thesis using False assms(1) by simp
  next
    case True
    obtain S' index' where r: "fold ?f [b ..< e] (S, index) = (S', index')" by fastforce
    have IH: "length S' = length S"
      "index' = index + length (filter (\<lambda>j. S ! j > - 1) [b ..< e])"
      "index' \<le> e"
      "take index' S' = take index S @ map (\<lambda>j. S ! j) (filter (\<lambda>j. S ! j > - 1) [b ..< e])"
      "\<And>k. e \<le> k \<Longrightarrow> S' ! k = S ! k"
      using Suc.IH Suc.prems True r assms(1) by (auto simp: max_absorb2)
    have split: "fold ?f [b ..< Suc e] (S, index) = ?f e (S', index')"
      using True r by simp
    have e: "S' ! e = S ! e" using IH(5) by simp
    have lt: "index' < length S'" using IH(1,3) Suc.prems by simp
    show ?thesis
    proof (cases "S ! e > - 1")
      case False
      then show ?thesis
        unfolding split using IH True e by (auto simp: max_absorb2)
    next
      case gt: True
      have t: "take (index' + 1) (S'[index' := S ! e]) = take index' S' @ [S ! e]"
        using lt by (simp add: take_Suc_conv_app_nth)
      have far: "\<And>k. Suc e \<le> k \<Longrightarrow> S'[index' := S ! e] ! k = S ! k"
        using IH(3,5) by (simp add: nth_list_update)
      show ?thesis
        unfolding split using IH(1,2,3,4) True e gt t far
        by (simp add: max_absorb2)
    qed
  qed
qed


lemma compress_rows:
  assumes mono: "\<forall>i < n. ia ! i \<le> ia ! Suc i"
    and bound: "\<forall>i \<le> n. ia ! i \<le> length M"
    and k: "k \<le> n"
  shows "case fold (S_compress_row ia) [0 ..< k] (SIA, M, 0) of
           (SIA', S', idx) \<Rightarrow>
             length S' = length M \<and>
             idx = length (concat (map (kept_pos M ia) [0 ..< k])) \<and>
             idx \<le> ia ! k \<and>
             take idx S' = map (\<lambda>j. M ! j) (concat (map (kept_pos M ia) [0 ..< k])) \<and>
             (\<forall>p. ia ! k \<le> p \<longrightarrow> S' ! p = M ! p) \<and>
             length SIA' = length SIA \<and>
             (\<forall>i < length SIA. SIA' ! i =
                (if i < k then length (concat (map (kept_pos M ia) [0 ..< i])) else SIA ! i))"
  using k
proof (induction k)
  case 0
  then show ?case by simp
next
  case (Suc k)
  obtain SIA' S' idx where r: "fold (S_compress_row ia) [0 ..< k] (SIA, M, 0) = (SIA', S', idx)"
    using prod_cases3 by blast
  have IH: "length S' = length M"
    "idx = length (concat (map (kept_pos M ia) [0 ..< k]))"
    "idx \<le> ia ! k"
    "take idx S' = map (\<lambda>j. M ! j) (concat (map (kept_pos M ia) [0 ..< k]))"
    "\<And>p. ia ! k \<le> p \<Longrightarrow> S' ! p = M ! p"
    "length SIA' = length SIA"
    "\<And>i. i < length SIA \<Longrightarrow> SIA' ! i =
        (if i < k then length (concat (map (kept_pos M ia) [0 ..< i])) else SIA ! i)"
    using Suc.IH Suc.prems r by auto
  let ?b = "ia ! k" and ?e = "ia ! Suc k"
  have be: "?b \<le> ?e" using mono Suc.prems by simp
  have e: "?e \<le> length S'" using bound Suc.prems IH(1) by simp
  let ?f = "\<lambda>j (SJA, index). if SJA ! j > (- 1 :: int) then (SJA[index := SJA ! j], index + 1)
                                       else (SJA, index)"
  obtain S'' idx' where r2: "fold ?f [?b ..< ?e] (S', idx) = (S'', idx')" by fastforce
  have same: "filter (\<lambda>j. S' ! j > - 1) [?b ..< ?e] = kept_pos M ia k"
    unfolding kept_pos_def by (rule filter_cong) (auto simp: IH(5))
  have samev: "map (\<lambda>j. S' ! j) (kept_pos M ia k) = map (\<lambda>j. M ! j) (kept_pos M ia k)"
    by (rule map_cong) (auto simp: kept_pos_def IH(5))
  have inner: "length S'' = length S'"
    "idx' = idx + length (kept_pos M ia k)"
    "idx' \<le> ?e"
    "take idx' S'' = take idx S' @ map (\<lambda>j. M ! j) (kept_pos M ia k)"
    "\<And>p. ?e \<le> p \<Longrightarrow> S'' ! p = S' ! p"
    using compress_inner [OF IH(3) e] r2 be same samev by (auto simp: max_absorb2)
  have step: "fold (S_compress_row ia) [0 ..< Suc k] (SIA, M, 0) = (SIA'[k := idx], S'', idx')"
    using r r2 by (simp add: S_compress_row_def)
  have far: "\<And>p. ?e \<le> p \<Longrightarrow> S'' ! p = M ! p"
    using inner(5) IH(5) be by simp
  have sia: "\<And>i. i < length SIA \<Longrightarrow> SIA'[k := idx] ! i =
        (if i < Suc k then length (concat (map (kept_pos M ia) [0 ..< i])) else SIA ! i)"
    using IH(2,6,7) by (auto simp: nth_list_update less_Suc_eq)
  show ?case
    unfolding step prod.case
    using IH(1,2,4,6) inner(1,2,3,4) far sia by simp
qed


lemma diag_once_first_diag:
  assumes "length (filter (\<lambda>c. c = i) (map (\<lambda>j. ja ! j) js)) = 1" and "p \<in> set js"
  shows "first_diag ja i js = Some p \<longleftrightarrow> ja ! p = i"
proof -
  have "length (filter (\<lambda>k. ja ! k = i) js) = 1"
    using assms(1) by (simp add: filter_map comp_def)
  then obtain k where k: "filter (\<lambda>k. ja ! k = i) js = [k]"
    by (cases "filter (\<lambda>k. ja ! k = i) js") auto
  have "ja ! p = i \<longleftrightarrow> p \<in> set (filter (\<lambda>k. ja ! k = i) js)" using assms(2) by simp
  also have "\<dots> \<longleftrightarrow> p = k" unfolding k by simp
  finally show ?thesis by (auto simp: first_diag_def k)
qed

lemma diag_once_row_le_col:
  assumes "csr_wf A" and "diag_once sr A"
  shows "row A \<le> col A"
proof (cases "row A")
  case 0 then show ?thesis by simp
next
  case (Suc n)
  then have n: "n < row A" by simp
  then have "length (filter (\<lambda>c. c = n) (row_cols A n)) = 1"
    using assms(2) by (simp add: diag_once_def)
  then have "filter (\<lambda>c. c = n) (row_cols A n) \<noteq> []" by auto
  then have "n \<in> set (row_cols A n)" by (auto simp: filter_empty_conv)
  then obtain p where p: "p \<in> {IA A ! n ..< IA A ! Suc n}" "JA A ! p = n"
    by (auto simp: row_cols_def)
  have "IA A ! Suc n \<le> nnz A" using csr_wf_le_nnz [OF assms(1), of "Suc n"] n by simp
  then have "p < nnz A" using p(1) by simp
  then have "n < col A" using assms(1) p(2) by (auto simp: csr_wf_def)
  then show ?thesis using Suc by simp
qed

lemma kept_code_strong_edge:
  assumes wf: "csr_wf A" and d: "diag_once sr A" and i: "i < row A"
    and p: "p \<in> {IA A ! i ..< IA A ! Suc i}"
  shows "kept_code sr mrs eps A (fasp_dcsr_getdiag A) i p \<longleftrightarrow> strong_edge mrs eps A i p"
proof -
  let ?js = "[IA A ! i ..< IA A ! Suc i]"
  have once: "length (filter (\<lambda>c. c = i) (map (\<lambda>j. JA A ! j) ?js)) = 1"
    using d i by (simp add: diag_once_def row_cols_def)
  have fd: "first_diag (JA A) i ?js = Some p \<longleftrightarrow> JA A ! p = i"
    using diag_once_first_diag [OF once] p by simp
  have dg: "fasp_dcsr_getdiag A ! i = diag_val A i"
    using getdiag_nth [OF i diag_once_row_le_col [OF wf d]] .
  have "sr \<le> \<bar>diag_val A i\<bar>" using d i by (simp add: diag_once_def)
  then have mx: "max sr \<bar>fasp_dcsr_getdiag A ! i\<bar> = \<bar>diag_val A i\<bar>"
    unfolding dg by (simp add: max_absorb2)
  have sum: "S_row_sum (vals A) ?js = sum_list (row_vals A i)"
    by (simp add: S_row_sum_eq row_vals_def)
  have mn: "S_row_scale (vals A) ?js = row_min0 A i"
    by (simp add: S_row_scale_eq row_min0_def row_vals_def)
  show ?thesis
    unfolding kept_code_def Let_def strong_edge_def row_capped_def fd mx sum mn
    by auto
qed

lemma generate_S_shape:
  assumes wf: "dcsr_wf A" and d: "diag_once sr A"
  shows "JA (generate_S sr mrs eps A) = concat (map (strong_cols mrs eps A) [0 ..< row A])"
    and "nnz (generate_S sr mrs eps A) = length (JA (generate_S sr mrs eps A))"
    and "row (generate_S sr mrs eps A) = row A"
    and "col (generate_S sr mrs eps A) = col A"
    and "\<forall>i < row A. IA (generate_S sr mrs eps A) ! i =
           length (concat (map (strong_cols mrs eps A) [0 ..< i]))"
    and "nnz (generate_S sr mrs eps A) > 0 \<longrightarrow>
           IA (generate_S sr mrs eps A) ! row A = nnz (generate_S sr mrs eps A)"
    and "length (IA (generate_S sr mrs eps A)) = row A + 1"
proof -
  have cwf: "csr_wf A" using wf by (simp add: dcsr_wf_def)
  let ?ia = "IA A"
  let ?S0 = "map int (take (IA A ! row A - IA A ! 0) (JA A))"
  let ?diag = "fasp_dcsr_getdiag A"
  let ?M = "fold (S_mark_row sr mrs eps A ?diag) [0 ..< row A] ?S0"
  let ?SIA = "take (row A + 1) (IA A)"
  have S0: "?S0 = map int (JA A)" using cwf by (simp add: csr_wf_def)
  have lenS0: "length ?S0 = nnz A" using cwf by (simp add: csr_wf_def)
  have lenM: "length ?M = nnz A"
    using fold_S_mark_rows [of sr mrs eps A ?diag "row A" ?S0] lenS0 by simp
  have F: "\<forall>p < length ?S0. ?M ! p =
      (if \<exists>i < row A. p \<in> {IA A ! i ..< IA A ! Suc i} \<and> \<not> kept_code sr mrs eps A ?diag i p
       then - 1 else ?S0 ! p)"
    using fold_S_mark_rows [of sr mrs eps A ?diag "row A" ?S0] by blast
  have Mnth: "?M ! p =
      (if \<exists>i < row A. p \<in> {IA A ! i ..< IA A ! Suc i} \<and> \<not> kept_code sr mrs eps A ?diag i p
       then - 1 else int (JA A ! p))" if "p < nnz A" for p
  proof -
    have s0p: "?S0 ! p = int (JA A ! p)" using that cwf unfolding S0 by (simp add: csr_wf_def)
    have "p < length ?S0" using that lenS0 by (simp only:)
    with F have "?M ! p =
      (if \<exists>i < row A. p \<in> {IA A ! i ..< IA A ! Suc i} \<and> \<not> kept_code sr mrs eps A ?diag i p
       then - 1 else ?S0 ! p)" by blast
    then show ?thesis by (simp only: s0p)
  qed
  have rng: "p < nnz A" if "i < row A" "p \<in> {IA A ! i ..< IA A ! Suc i}" for i p
    using csr_wf_le_nnz [OF cwf, of "Suc i"] that by simp
  have Mrow: "?M ! p = (if strong_edge mrs eps A i p then int (JA A ! p) else - 1)"
    if "i < row A" "p \<in> {IA A ! i ..< IA A ! Suc i}" for i p
  proof -
    have "(\<exists>i' < row A. p \<in> {IA A ! i' ..< IA A ! Suc i'} \<and> \<not> kept_code sr mrs eps A ?diag i' p)
          \<longleftrightarrow> \<not> kept_code sr mrs eps A ?diag i p"
      using that csr_wf_row_unique [OF cwf _ that(1) _ that(2)] by blast
    then show ?thesis
      using Mnth [OF rng [OF that]] kept_code_strong_edge [OF cwf d that] by simp
  qed
  have kp: "kept_pos ?M ?ia i = filter (strong_edge mrs eps A i) [IA A ! i ..< IA A ! Suc i]"
    if "i < row A" for i
    unfolding kept_pos_def by (rule filter_cong) (auto simp: Mrow [OF that])
  have kv: "map (\<lambda>j. nat (?M ! j)) (kept_pos ?M ?ia i) = strong_cols mrs eps A i"
    if "i < row A" for i
    unfolding kp [OF that] strong_cols_def
    by (rule map_cong) (auto simp: Mrow [OF that])
  have kl: "length (kept_pos ?M ?ia i) = length (strong_cols mrs eps A i)" if "i < row A" for i
    using kv [OF that] by (metis length_map)
  have cl: "length (concat (map (kept_pos ?M ?ia) [0 ..< k])) =
            length (concat (map (strong_cols mrs eps A) [0 ..< k]))" if "k \<le> row A" for k
    using that by (induction k) (simp_all add: kl)
  have cv: "map (\<lambda>j. nat (?M ! j)) (concat (map (kept_pos ?M ?ia) [0 ..< k])) =
            concat (map (strong_cols mrs eps A) [0 ..< k])" if "k \<le> row A" for k
    using that by (induction k) (simp_all add: kv)
  obtain SIA' S' idx where r:
    "fold (S_compress_row ?ia) [0 ..< row A] (?SIA, ?M, 0) = (SIA', S', idx)"
    using prod_cases3 by blast
  have mono: "\<forall>i < row A. ?ia ! i \<le> ?ia ! Suc i" using cwf by (simp add: csr_wf_def)
  have bound: "\<forall>i \<le> row A. ?ia ! i \<le> length ?M"
    using csr_wf_le_nnz [OF cwf] lenM by simp
  have C: "idx = length (concat (map (kept_pos ?M ?ia) [0 ..< row A]))"
    "take idx S' = map (\<lambda>j. ?M ! j) (concat (map (kept_pos ?M ?ia) [0 ..< row A]))"
    "length SIA' = length ?SIA"
    "\<And>i. i < length ?SIA \<Longrightarrow> SIA' ! i =
        (if i < row A then length (concat (map (kept_pos ?M ?ia) [0 ..< i])) else ?SIA ! i)"
    using compress_rows [OF mono bound le_refl, of ?SIA] r by auto
  have lenSIA: "length ?SIA = row A + 1" using cwf by (simp add: csr_wf_def)
  have G: "generate_S sr mrs eps A =
      (if idx > 0
         then \<lparr> row = row A, col = col A, nnz = idx, IA = SIA'[row A := idx],
                JA = map nat (take idx S'), val = None \<rparr>
         else \<lparr> row = row A, col = col A, nnz = 0, IA = SIA', JA = [], val = None \<rparr>)"
    unfolding generate_S_def Let_def r prod.case by simp
  have "map nat (take idx S') =
        map (\<lambda>j. nat (?M ! j)) (concat (map (kept_pos ?M ?ia) [0 ..< row A]))"
    unfolding C(2) by (simp add: comp_def)
  then have JAeq: "map nat (take idx S') = concat (map (strong_cols mrs eps A) [0 ..< row A])"
    using cv [of "row A"] by simp
  have idxlen: "idx = length (concat (map (strong_cols mrs eps A) [0 ..< row A]))"
    unfolding C(1) by (rule cl) simp
  show "JA (generate_S sr mrs eps A) = concat (map (strong_cols mrs eps A) [0 ..< row A])"
    unfolding G using JAeq idxlen by (cases "idx > 0") simp_all
  show "nnz (generate_S sr mrs eps A) = length (JA (generate_S sr mrs eps A))"
    unfolding G using JAeq idxlen by (cases "idx > 0") simp_all
  show "row (generate_S sr mrs eps A) = row A" unfolding G by simp
  show "col (generate_S sr mrs eps A) = col A" unfolding G by simp
  show "\<forall>i < row A. IA (generate_S sr mrs eps A) ! i =
           length (concat (map (strong_cols mrs eps A) [0 ..< i]))"
    unfolding G using C(3,4) lenSIA cl by (auto simp: nth_list_update)
  show "nnz (generate_S sr mrs eps A) > 0 \<longrightarrow>
           IA (generate_S sr mrs eps A) ! row A = nnz (generate_S sr mrs eps A)"
    unfolding G using C(3) lenSIA by simp
  show "length (IA (generate_S sr mrs eps A)) = row A + 1"
    unfolding G using C(3) lenSIA by simp
qed




subsection \<open>Truncation\<close>

lemma fold_trunc_scan:
  "fold trunc_scan vs (m, p, ms, ps) = (minneg vs m, maxpos vs p, ms + neg_sum vs, ps + pos_sum vs)"
  by (induction vs arbitrary: m p ms ps)
     (simp_all add: trunc_scan_def minneg_def maxpos_def neg_sum_def pos_sum_def)

lemma minneg_cases: "minneg vs m = m \<or> (minneg vs m \<in> set vs \<and> minneg vs m < 0)"
proof (induction vs arbitrary: m)
  case Nil then show ?case by (simp add: minneg_def)
next
  case (Cons v vs)
  let ?m' = "if v < 0 \<and> v < m then v else m"
  have step: "minneg (v # vs) m = minneg vs ?m'"
    by (simp add: minneg_def)
  from Cons.IH [of ?m'] show ?case
    unfolding step by (auto split: if_splits)
qed

lemma minneg_le_init: "minneg vs m \<le> m"
proof (induction vs arbitrary: m)
  case Nil then show ?case by (simp add: minneg_def)
next
  case (Cons v vs)
  have "minneg (v # vs) m = minneg vs (if v < 0 \<and> v < m then v else m)"
    by (simp add: minneg_def)
  also have "\<dots> \<le> (if v < 0 \<and> v < m then v else m)" by (rule Cons.IH)
  also have "\<dots> \<le> m" by simp
  finally show ?case .
qed

lemma minneg_lower: "v \<in> set vs \<Longrightarrow> v < 0 \<Longrightarrow> minneg vs m \<le> v"
proof (induction vs arbitrary: m)
  case Nil then show ?case by simp
next
  case (Cons w ws)
  have step: "minneg (w # ws) m = minneg ws (if w < 0 \<and> w < m then w else m)"
    by (simp add: minneg_def)
  show ?case
  proof (cases "v = w")
    case True
    have "minneg (w # ws) m \<le> (if w < 0 \<and> w < m then w else m)"
      unfolding step by (rule minneg_le_init)
    also have "\<dots> \<le> w" using Cons.prems True by auto
    finally show ?thesis using True by simp
  next
    case False
    then have "v \<in> set ws" using Cons.prems by simp
    then show ?thesis unfolding step using Cons.IH Cons.prems by blast
  qed
qed

lemma maxpos_cases: "maxpos vs p = p \<or> (maxpos vs p \<in> set vs \<and> maxpos vs p > 0)"
proof (induction vs arbitrary: p)
  case Nil then show ?case by (simp add: maxpos_def)
next
  case (Cons v vs)
  let ?p' = "if v > 0 \<and> v > p then v else p"
  have step: "maxpos (v # vs) p = maxpos vs ?p'"
    by (simp add: maxpos_def)
  from Cons.IH [of ?p'] show ?case
    unfolding step by (auto split: if_splits)
qed

lemma maxpos_ge_init: "p \<le> maxpos vs p"
proof (induction vs arbitrary: p)
  case Nil then show ?case by (simp add: maxpos_def)
next
  case (Cons v vs)
  have "maxpos (v # vs) p = maxpos vs (if v > 0 \<and> v > p then v else p)"
    by (simp add: maxpos_def)
  moreover have "(if v > 0 \<and> v > p then v else p) \<le> maxpos vs (if v > 0 \<and> v > p then v else p)"
    by (rule Cons.IH)
  moreover have "p \<le> (if v > 0 \<and> v > p then v else p)" by simp
  ultimately show ?case by linarith
qed

lemma maxpos_upper: "v \<in> set vs \<Longrightarrow> v > 0 \<Longrightarrow> v \<le> maxpos vs p"
proof (induction vs arbitrary: p)
  case Nil then show ?case by simp
next
  case (Cons w ws)
  have step: "maxpos (w # ws) p = maxpos ws (if w > 0 \<and> w > p then w else p)"
    by (simp add: maxpos_def)
  show ?case
  proof (cases "v = w")
    case True
    have "(if w > 0 \<and> w > p then w else p) \<le> maxpos (w # ws) p"
      unfolding step by (rule maxpos_ge_init)
    moreover have "w \<le> (if w > 0 \<and> w > p then w else p)" using Cons.prems True by auto
    ultimately show ?thesis using True by simp
  next
    case False
    then have "v \<in> set ws" using Cons.prems by simp
    then show ?thesis unfolding step using Cons.IH Cons.prems by blast
  qed
qed

lemma fold_trunc_count:
  "fold (trunc_count e mMin pMax) vs nl =
     nl - int (length (filter (\<lambda>v. keepm e mMin v \<or> keepp e pMax v) vs))"
  by (induction vs arbitrary: nl) (auto simp: trunc_count_def keepm_def keepp_def)

lemma fold_trunc_pattern:
  "fold (trunc_pattern e mMin pMax) cvs (ja, mt, pt) =
     (ja @ map fst (filter (\<lambda>(c, v). keepm e mMin v \<or> keepp e pMax v) cvs),
      mt + sum_list (filter (keepm e mMin) (map snd cvs)),
      pt + sum_list (filter (keepp e pMax) (map snd cvs)))"
  by (induction cvs arbitrary: ja mt pt) (auto simp: trunc_pattern_def keepm_def keepp_def)

lemma fold_trunc_fill:
  "fold (trunc_fill e mMin pMax mS pS mT pT) vs a =
     a @ map (\<lambda>v. if v < 0 then v / mT * mS else v / pT * pS)
           (filter (\<lambda>v. keepm e mMin v \<or> keepp e pMax v) vs)"
  by (induction vs arbitrary: a) (auto simp: trunc_fill_def keepm_def keepp_def)


lemma trunc_row_eq:
  "\<exists>ja'. trunc_row e P i (ia, ja, a, nl) =
     (ia[i := nat (int (ia ! i) - nl)], ja', a @ trunc_out e (row_vals P i),
      nl - int (length (trunc_out e (row_vals P i))))"
proof -
  let ?js = "[IA P ! i ..< IA P ! Suc i]"
  let ?vs = "row_vals P i"
  have vs: "?vs = map (\<lambda>j. vals P ! j) ?js" by (simp add: row_vals_def)
  have f1: "fold (\<lambda>j. trunc_scan (vals P ! j)) ?js s = fold trunc_scan ?vs s" for s
    unfolding vs by (simp add: fold_map comp_def)
  have f2: "fold (\<lambda>j. trunc_count e m p (vals P ! j)) ?js s = fold (trunc_count e m p) ?vs s" for s m p
    unfolding vs by (simp add: fold_map comp_def)
  have f3: "fold (\<lambda>j. trunc_pattern e m p (JA P ! j, vals P ! j)) ?js s =
            fold (trunc_pattern e m p) (map (\<lambda>j. (JA P ! j, vals P ! j)) ?js) s" for s m p
    by (simp add: fold_map comp_def)
  have snd3: "map (snd \<circ> (\<lambda>j. (JA P ! j, vals P ! j))) ?js = ?vs"
    unfolding vs by (simp add: comp_def)
  have keep: "(\<lambda>v. keepm e (minneg ?vs 0) v \<or> keepp e (maxpos ?vs 0) v) = trunc_keep e ?vs"
    by (simp add: trunc_keep_def fun_eq_iff)
  have f4: "fold (\<lambda>j. trunc_fill e m p ms ps mt pt (vals P ! j)) ?js s =
            fold (trunc_fill e m p ms ps mt pt) ?vs s" for s m p ms ps mt pt
    unfolding vs by (simp add: fold_map comp_def)
  show ?thesis
    unfolding trunc_row_def Let_def
    by (simp add: f1 f2 f4 fold_trunc_scan fold_trunc_count fold_trunc_fill
        f3 fold_trunc_pattern snd3 trunc_out_def keep del: fold_simps)
qed

lemma fold_trunc_rows:
  "k \<le> n \<Longrightarrow>
   \<exists>ja. fold (trunc_row e P) [0 ..< k] (replicate (n + 1) 0, [], [], 0) =
     (map (\<lambda>i. if i < k then trunc_offset e P i else 0) [0 ..< n + 1], ja,
      concat (map (\<lambda>r. trunc_out e (row_vals P r)) [0 ..< k]),
      - int (trunc_offset e P k))"
proof (induction k)
  case 0
  have "replicate (n + 1) (0::nat) = map (\<lambda>i. 0) [0 ..< n + 1]"
    by (simp add: map_replicate_const)
  then show ?case by (simp add: trunc_offset_def)
next
  case (Suc k)
  then obtain ja where IH:
    "fold (trunc_row e P) [0 ..< k] (replicate (n + 1) 0, [], [], 0) =
     (map (\<lambda>i. if i < k then trunc_offset e P i else 0) [0 ..< n + 1], ja,
      concat (map (\<lambda>r. trunc_out e (row_vals P r)) [0 ..< k]),
      - int (trunc_offset e P k))" by auto
  let ?ia = "map (\<lambda>i. if i < k then trunc_offset e P i else 0) [0 ..< n + 1]"
  obtain ja' where step:
    "trunc_row e P k (?ia, ja, concat (map (\<lambda>r. trunc_out e (row_vals P r)) [0 ..< k]),
        - int (trunc_offset e P k)) =
     (?ia[k := nat (int (?ia ! k) - (- int (trunc_offset e P k)))], ja',
      concat (map (\<lambda>r. trunc_out e (row_vals P r)) [0 ..< k]) @ trunc_out e (row_vals P k),
      - int (trunc_offset e P k) - int (length (trunc_out e (row_vals P k))))"
    using trunc_row_eq by blast
  have k: "k < n + 1" using Suc.prems by simp
  have ia: "?ia[k := nat (int (?ia ! k) - (- int (trunc_offset e P k)))] =
            map (\<lambda>i. if i < Suc k then trunc_offset e P i else 0) [0 ..< n + 1]"
    using k by (intro nth_equalityI) (auto simp del: upt_Suc simp add: nth_list_update less_Suc_eq)
  have off: "- int (trunc_offset e P k) - int (length (trunc_out e (row_vals P k))) =
             - int (trunc_offset e P (Suc k))"
    by (simp add: trunc_offset_def)
  have "fold (trunc_row e P) [0 ..< Suc k] (replicate (n + 1) 0, [], [], 0) =
        trunc_row e P k (fold (trunc_row e P) [0 ..< k] (replicate (n + 1) 0, [], [], 0))"
    by simp
  also have "\<dots> = (map (\<lambda>i. if i < Suc k then trunc_offset e P i else 0) [0 ..< n + 1], ja',
      concat (map (\<lambda>r. trunc_out e (row_vals P r)) [0 ..< k]) @ trunc_out e (row_vals P k),
      - int (trunc_offset e P (Suc k)))"
    by (simp only: IH step ia off)
  also have "concat (map (\<lambda>r. trunc_out e (row_vals P r)) [0 ..< k]) @ trunc_out e (row_vals P k)
      = concat (map (\<lambda>r. trunc_out e (row_vals P r)) [0 ..< Suc k])"
    by simp
  finally show ?case by blast
qed

lemma truncate_P_fields:
  "\<exists>ja. truncate_P e P =
     \<lparr> row = row P, col = col P, nnz = trunc_offset e P (row P),
       IA = map (trunc_offset e P) [0 ..< row P + 1], JA = ja,
       val = Some (concat (map (\<lambda>r. trunc_out e (row_vals P r)) [0 ..< row P])) \<rparr>"
proof -
  obtain ja where F: "fold (trunc_row e P) [0 ..< row P] (replicate (row P + 1) 0, [], [], 0) =
     (map (\<lambda>i. if i < row P then trunc_offset e P i else 0) [0 ..< row P + 1], ja,
      concat (map (\<lambda>r. trunc_out e (row_vals P r)) [0 ..< row P]),
      - int (trunc_offset e P (row P)))"
    using fold_trunc_rows [of "row P" "row P" e P] by auto
  let ?ia = "map (\<lambda>i. if i < row P then trunc_offset e P i else 0) [0 ..< row P + 1]"
  have ia: "?ia[row P := nat (int (?ia ! row P) - (- int (trunc_offset e P (row P))))] =
            map (trunc_offset e P) [0 ..< row P + 1]"
    by (intro nth_equalityI) (auto simp del: upt_Suc simp add: nth_list_update)
  have last: "map (trunc_offset e P) [0 ..< row P + 1] ! row P = trunc_offset e P (row P)"
    by (simp del: upt_Suc)
  show ?thesis
    unfolding truncate_P_def F Let_def prod.case ia last by blast
qed

lemma row_vals_truncate_P:
  assumes "i < row P"
  shows "row_vals (truncate_P e P) i = trunc_out e (row_vals P i)"
proof -
  let ?xss = "map (\<lambda>r. trunc_out e (row_vals P r)) [0 ..< row P]"
  obtain ja where Q: "truncate_P e P =
     \<lparr> row = row P, col = col P, nnz = trunc_offset e P (row P),
       IA = map (trunc_offset e P) [0 ..< row P + 1], JA = ja, val = Some (concat ?xss) \<rparr>"
    using truncate_P_fields by blast
  have off: "trunc_offset e P k = length (concat (take k ?xss))" if "k \<le> row P" for k
    using that by (simp add: trunc_offset_def take_map)
  have i1: "map (trunc_offset e P) [0 ..< row P + 1] ! i = length (concat (take i ?xss))"
    using assms off [of i] by (simp del: upt_Suc)
  have i2: "map (trunc_offset e P) [0 ..< row P + 1] ! Suc i = length (concat (take (Suc i) ?xss))"
    using assms off [of "Suc i"] by (simp del: upt_Suc)
  have v: "vals (truncate_P e P) = concat ?xss" unfolding Q by (simp add: vals_def)
  have ia: "IA (truncate_P e P) = map (trunc_offset e P) [0 ..< row P + 1]" unfolding Q by simp
  have "row_vals (truncate_P e P) i =
        map ((!) (vals (truncate_P e P))) [IA (truncate_P e P) ! i ..< IA (truncate_P e P) ! Suc i]"
    by (simp add: row_vals_def)
  also have "\<dots> =
        map ((!) (concat ?xss)) [length (concat (take i ?xss)) ..< length (concat (take (Suc i) ?xss))]"
    by (simp only: v ia i1 i2)
  also have "\<dots> = ?xss ! i"
    using assms by (intro nth_concat_slice) simp
  also have "\<dots> = trunc_out e (row_vals P i)"
    using assms by simp
  finally show ?thesis .
qed

lemma sum_list_all_neg:
  "ws \<noteq> [] \<Longrightarrow> \<forall>x \<in> set ws. x < 0 \<Longrightarrow> sum_list ws < (0::real)"
  by (induction ws) (auto intro: add_neg_nonpos simp: sum_list_nonpos less_imp_le)

lemma sum_list_all_pos:
  "ws \<noteq> [] \<Longrightarrow> \<forall>x \<in> set ws. x > 0 \<Longrightarrow> sum_list ws > (0::real)"
  by (induction ws) (auto intro: add_pos_nonneg simp: sum_list_nonneg less_imp_le)

lemma keepm_sum_neg:
  assumes "e \<le> 1" and "v \<in> set vs" and "v < 0"
  shows "sum_list (filter (keepm e (minneg vs 0)) vs) < 0"
proof -
  let ?m = "minneg vs 0"
  have "?m \<le> v" using assms by (intro minneg_lower)
  then have m0: "?m < 0" using assms by simp
  then have min: "?m \<in> set vs" using minneg_cases [of vs 0] by auto
  have "?m * 1 \<le> ?m * e" using m0 assms(1) by (intro mult_left_mono_neg) auto
  then have "keepm e ?m ?m" using m0 by (simp add: keepm_def)
  then have ne: "?m \<in> set (filter (keepm e ?m) vs)" using min by simp
  have all: "\<forall>x \<in> set (filter (keepm e ?m) vs). x < 0" by (simp add: keepm_def)
  show ?thesis using ne all by (intro sum_list_all_neg) (auto simp: filter_empty_conv)
qed

lemma keepp_sum_pos:
  assumes "e \<le> 1" and "v \<in> set vs" and "v > 0"
  shows "sum_list (filter (keepp e (maxpos vs 0)) vs) > 0"
proof -
  let ?m = "maxpos vs 0"
  have "v \<le> ?m" using assms by (intro maxpos_upper)
  then have m0: "?m > 0" using assms by simp
  then have mx: "?m \<in> set vs" using maxpos_cases [of vs 0] by auto
  have "?m * e \<le> ?m * 1" using m0 assms(1) by (intro mult_left_mono) auto
  then have "keepp e ?m ?m" using m0 by (simp add: keepp_def)
  then have ne: "?m \<in> set (filter (keepp e ?m) vs)" using mx by simp
  have all: "\<forall>x \<in> set (filter (keepp e ?m) vs). x > 0" by (simp add: keepp_def)
  show ?thesis using ne all by (intro sum_list_all_pos) (auto simp: filter_empty_conv)
qed

lemma neg_sum_nonpos: "neg_sum vs \<le> 0"
  unfolding neg_sum_def by (intro sum_list_nonpos) auto

lemma pos_sum_nonneg: "0 \<le> pos_sum vs"
  unfolding pos_sum_def by (intro sum_list_nonneg) auto

lemma neg_sum_neg: "v \<in> set vs \<Longrightarrow> v < 0 \<Longrightarrow> neg_sum vs < 0"
  unfolding neg_sum_def by (rule sum_list_all_neg) (auto simp: filter_empty_conv)

lemma pos_sum_pos: "v \<in> set vs \<Longrightarrow> v > 0 \<Longrightarrow> pos_sum vs > 0"
  unfolding pos_sum_def by (rule sum_list_all_pos) (auto simp: filter_empty_conv)

lemma sum_list_scaled: "sum_list (map (\<lambda>v. v / t * s) ws) = sum_list ws / t * (s::real)"
  by (induction ws) (simp_all add: add_divide_distrib distrib_right)

lemma neg_sum_trunc_out:
  assumes "e \<le> 1"
  shows "neg_sum (trunc_out e vs) = neg_sum vs"
proof (cases "\<exists>v \<in> set vs. v < 0")
  case False
  then have a: "filter (\<lambda>v. v < 0) vs = []" by (auto simp: filter_empty_conv)
  have "\<forall>w \<in> set (trunc_out e vs). \<not> w < 0"
  proof
    fix w assume "w \<in> set (trunc_out e vs)"
    then obtain v where v: "v \<in> set vs" "trunc_keep e vs v"
      and w: "w = (if v < 0 then v / sum_list (filter (keepm e (minneg vs 0)) vs) * neg_sum vs
                   else v / sum_list (filter (keepp e (maxpos vs 0)) vs) * pos_sum vs)"
      by (auto simp: trunc_out_def)
    have nv: "\<not> v < 0" using False v by auto
    then have vp: "v > 0" using v(2) by (auto simp: trunc_keep_def keepm_def keepp_def)
    have "sum_list (filter (keepp e (maxpos vs 0)) vs) > 0" using keepp_sum_pos [OF assms v(1) vp] .
    moreover have "pos_sum vs > 0" using pos_sum_pos [OF v(1) vp] .
    ultimately have "v / sum_list (filter (keepp e (maxpos vs 0)) vs) * pos_sum vs > 0"
      using vp by (intro mult_pos_pos divide_pos_pos)
    then have "w > 0" using w nv by simp
    then show "\<not> w < 0" by simp
  qed
  then have "filter (\<lambda>v. v < 0) (trunc_out e vs) = []" by (auto simp: filter_empty_conv)
  then show ?thesis using a by (simp add: neg_sum_def)
next
  case True
  then obtain v where v: "v \<in> set vs" "v < 0" by auto
  let ?mT = "sum_list (filter (keepm e (minneg vs 0)) vs)"
  let ?pT = "sum_list (filter (keepp e (maxpos vs 0)) vs)"
  have mT: "?mT < 0" using keepm_sum_neg [OF assms v] .
  have mS: "neg_sum vs < 0" using neg_sum_neg [OF v] .
  have sign: "(if x < 0 then x / ?mT * neg_sum vs else x / ?pT * pos_sum vs) < 0 \<longleftrightarrow> x < 0"
    if "x \<in> set vs" "trunc_keep e vs x" for x
  proof (cases "x < 0")
    case True
    then have "x / ?mT > 0" using mT by (simp add: divide_neg_neg)
    then have "x / ?mT * neg_sum vs < 0" using mS by (rule mult_pos_neg)
    then show ?thesis using True by simp
  next
    case False
    then have xp: "x > 0" using that(2) by (auto simp: trunc_keep_def keepm_def keepp_def)
    have "?pT > 0" using keepp_sum_pos [OF assms that(1) xp] .
    moreover have "pos_sum vs > 0" using pos_sum_pos [OF that(1) xp] .
    ultimately have "x / ?pT * pos_sum vs > 0" using xp by (intro mult_pos_pos divide_pos_pos)
    then show ?thesis using False by simp
  qed
  have "filter (\<lambda>w. w < 0) (trunc_out e vs) =
        map (\<lambda>v. v / ?mT * neg_sum vs) (filter (keepm e (minneg vs 0)) vs)"
  proof -
    have "filter (\<lambda>w. w < 0) (trunc_out e vs) =
          map (\<lambda>v. if v < 0 then v / ?mT * neg_sum vs else v / ?pT * pos_sum vs)
            (filter (\<lambda>x. x < 0) (filter (trunc_keep e vs) vs))"
      unfolding trunc_out_def filter_map comp_def
      by (rule arg_cong [where f = "map _"], rule filter_cong) (auto simp: sign)
    also have "filter (\<lambda>x. x < 0) (filter (trunc_keep e vs) vs) = filter (keepm e (minneg vs 0)) vs"
      unfolding filter_filter
      by (rule filter_cong) (auto simp: trunc_keep_def keepm_def keepp_def)
    also have "map (\<lambda>v. if v < 0 then v / ?mT * neg_sum vs else v / ?pT * pos_sum vs)
            (filter (keepm e (minneg vs 0)) vs) =
          map (\<lambda>v. v / ?mT * neg_sum vs) (filter (keepm e (minneg vs 0)) vs)"
      by (rule map_cong) (auto simp: keepm_def)
    finally show ?thesis .
  qed
  then have "neg_sum (trunc_out e vs) =
      sum_list (map (\<lambda>v. v / ?mT * neg_sum vs) (filter (keepm e (minneg vs 0)) vs))"
    by (simp only: neg_sum_def)
  also have "\<dots> = ?mT / ?mT * neg_sum vs"
    by (rule sum_list_scaled)
  finally show ?thesis using mT by simp
qed

lemma pos_sum_trunc_out:
  assumes "e \<le> 1"
  shows "pos_sum (trunc_out e vs) = pos_sum vs"
proof (cases "\<exists>v \<in> set vs. v > 0")
  case False
  then have a: "filter (\<lambda>v. v > 0) vs = []" by (auto simp: filter_empty_conv)
  have "\<forall>w \<in> set (trunc_out e vs). \<not> w > 0"
  proof
    fix w assume "w \<in> set (trunc_out e vs)"
    then obtain v where v: "v \<in> set vs" "trunc_keep e vs v"
      and w: "w = (if v < 0 then v / sum_list (filter (keepm e (minneg vs 0)) vs) * neg_sum vs
                   else v / sum_list (filter (keepp e (maxpos vs 0)) vs) * pos_sum vs)"
      by (auto simp: trunc_out_def)
    have nv: "\<not> v > 0" using False v by auto
    then have vn: "v < 0" using v(2) by (auto simp: trunc_keep_def keepm_def keepp_def)
    have "sum_list (filter (keepm e (minneg vs 0)) vs) < 0" using keepm_sum_neg [OF assms v(1) vn] .
    then have "v / sum_list (filter (keepm e (minneg vs 0)) vs) > 0"
      using vn by (simp add: divide_neg_neg)
    moreover have "neg_sum vs < 0" using neg_sum_neg [OF v(1) vn] .
    ultimately have "v / sum_list (filter (keepm e (minneg vs 0)) vs) * neg_sum vs < 0"
      by (rule mult_pos_neg)
    then have "w < 0" using w vn by simp
    then show "\<not> w > 0" by simp
  qed
  then have "filter (\<lambda>v. v > 0) (trunc_out e vs) = []" by (auto simp: filter_empty_conv)
  then show ?thesis using a by (simp add: pos_sum_def)
next
  case True
  then obtain v where v: "v \<in> set vs" "v > 0" by auto
  let ?mT = "sum_list (filter (keepm e (minneg vs 0)) vs)"
  let ?pT = "sum_list (filter (keepp e (maxpos vs 0)) vs)"
  have pT: "?pT > 0" using keepp_sum_pos [OF assms v] .
  have pS: "pos_sum vs > 0" using pos_sum_pos [OF v] .
  have sign: "(if x < 0 then x / ?mT * neg_sum vs else x / ?pT * pos_sum vs) > 0 \<longleftrightarrow> x > 0"
    if "x \<in> set vs" "trunc_keep e vs x" for x
  proof (cases "x < 0")
    case True
    have "?mT < 0" using keepm_sum_neg [OF assms that(1) True] .
    then have "x / ?mT > 0" using True by (simp add: divide_neg_neg)
    moreover have "neg_sum vs < 0" using neg_sum_neg [OF that(1) True] .
    ultimately have "x / ?mT * neg_sum vs < 0" by (rule mult_pos_neg)
    then show ?thesis using True by simp
  next
    case False
    then have xp: "x > 0" using that(2) by (auto simp: trunc_keep_def keepm_def keepp_def)
    have "x / ?pT * pos_sum vs > 0" using xp pT pS by (intro mult_pos_pos divide_pos_pos)
    then show ?thesis using False xp by simp
  qed
  have "filter (\<lambda>w. w > 0) (trunc_out e vs) =
        map (\<lambda>v. v / ?pT * pos_sum vs) (filter (keepp e (maxpos vs 0)) vs)"
  proof -
    have "filter (\<lambda>w. w > 0) (trunc_out e vs) =
          map (\<lambda>v. if v < 0 then v / ?mT * neg_sum vs else v / ?pT * pos_sum vs)
            (filter (\<lambda>x. x > 0) (filter (trunc_keep e vs) vs))"
      unfolding trunc_out_def filter_map comp_def
      by (rule arg_cong [where f = "map _"], rule filter_cong) (auto simp: sign)
    also have "filter (\<lambda>x. x > 0) (filter (trunc_keep e vs) vs) = filter (keepp e (maxpos vs 0)) vs"
      unfolding filter_filter
      by (rule filter_cong) (auto simp: trunc_keep_def keepm_def keepp_def)
    also have "map (\<lambda>v. if v < 0 then v / ?mT * neg_sum vs else v / ?pT * pos_sum vs)
            (filter (keepp e (maxpos vs 0)) vs) =
          map (\<lambda>v. v / ?pT * pos_sum vs) (filter (keepp e (maxpos vs 0)) vs)"
      by (rule map_cong) (auto simp: keepp_def)
    finally show ?thesis .
  qed
  then have "pos_sum (trunc_out e vs) =
      sum_list (map (\<lambda>v. v / ?pT * pos_sum vs) (filter (keepp e (maxpos vs 0)) vs))"
    by (simp only: pos_sum_def)
  also have "\<dots> = ?pT / ?pT * pos_sum vs"
    by (rule sum_list_scaled)
  finally show ?thesis using pT by simp
qed




text \<open>Every surviving entry is its old value times \<open>sum before / sum of the survivors\<close>.\<close>

lemma truncation_rescales:
  assumes "i < row P"
  shows "row_vals (truncate_P epsilon_tr P) i = trunc_out epsilon_tr (row_vals P i)"
  using assms by (rule row_vals_truncate_P)

subsection \<open>C/F splitting\<close>

lemma labels_distinct [simp]:
  "FGPT \<noteq> CGPT" "CGPT \<noteq> FGPT" "FGPT \<noteq> ISPT" "CGPT \<noteq> ISPT" "FGPT \<noteq> UNPT" "CGPT \<noteq> UNPT"
  by (simp_all add: FGPT_def CGPT_def ISPT_def UNPT_def)

lemma cols_okD: "cols_ok S n \<Longrightarrow> k < n \<Longrightarrow> j \<in> set (row_cols S k) \<Longrightarrow> j < n"
  by (auto simp: cols_ok_def list_all_iff)

lemma fold_cf2_mark_coarse:
  "length (fold (cf2_mark_coarse v i) js ga) = length ga \<and>
   (\<forall>x < length ga. fold (cf2_mark_coarse v i) js ga ! x =
      (if x \<in> set js \<and> v ! x = CGPT then int i else ga ! x))"
proof (induction js arbitrary: ga)
  case Nil then show ?case by simp
next
  case (Cons j js)
  show ?case
  proof (cases "v ! j = CGPT")
    case True
    have "x < length ga \<Longrightarrow> (ga[j := int i]) ! x = (if x = j then int i else ga ! x)" for x
      by (simp add: nth_list_update)
    then show ?thesis using Cons [of "ga[j := int i]"] True
      by (auto simp: cf2_mark_coarse_def)
  next
    case False
    then show ?thesis using Cons [of ga] by (auto simp: cf2_mark_coarse_def)
  qed
qed

lemma covered_promote:
  assumes "covered S v k" and "u < length v"
  shows "covered S (v[u := CGPT]) k"
  unfolding covered_def
proof (intro ballI impI)
  fix j assume j: "j \<in> set (row_cols S k)" and f: "v[u := CGPT] ! j = FGPT"
  have "j \<noteq> u" using f assms(2) by auto
  then have "v ! j = FGPT" using f by simp
  then obtain c where c: "c \<in> set (row_cols S k) \<inter> set (row_cols S j)" "v ! c = CGPT"
    using assms(1) j by (auto simp: covered_def)
  have "v[u := CGPT] ! c = CGPT" using c(2) assms(2) by (cases "c = u") simp_all
  then show "\<exists>c \<in> set (row_cols S k) \<inter> set (row_cols S j). v[u := CGPT] ! c = CGPT"
    using c(1) by blast
qed

lemma or_zero_nat: "(m OR int i) = 0 \<Longrightarrow> i = 0"
  by (simp add: or_eq_0_iff)


lemma cf2_inv_next:
  assumes "n \<le> length (vec2 st')" and "length (graph_array st') = n"
    and "\<And>k. k < Suc i \<Longrightarrow> vec2 st' ! k = FGPT \<Longrightarrow> covered S (vec2 st') k"
    and "\<And>x. x < n \<Longrightarrow> graph_array st' ! x \<le> int i"
    and "ci_tilde st' > - 1 \<Longrightarrow> nat (ci_tilde st') < n \<and> vec2 st' ! nat (ci_tilde st') = CGPT"
  shows "cf2_inv S n st' (Suc i)"
proof -
  have "\<forall>x < n. graph_array st' ! x < int (Suc i)"
    using assms(4) by fastforce
  then show ?thesis
    unfolding cf2_inv_def using assms(1,2,3,5) by blast
qed

lemma cf2_visit_inv:
  assumes ok: "cols_ok S n" and i: "i < n" and inv: "cf2_inv S n st i"
    and v: "cf2_visit S i st = (st', again)"
  shows "(again \<longrightarrow> cf2_inv S n st' i \<and> \<not> C_i_nonempty st \<and> C_i_nonempty st') \<and>
         (\<not> again \<longrightarrow> cf2_inv S n st' (Suc i))"
proof -
  define mark where "mark = (ci_tilde_mark st OR int i)"
  define ct where "ct = (if mark \<noteq> 0 then - 1 else ci_tilde st)"
  define st1 where "st1 = st\<lparr> ci_tilde_mark := mark, ci_tilde := ct \<rparr>"
  define w where "w = vec2 st"
  define ga where "ga = fold (cf2_mark_coarse w i) (row_cols S i) (graph_array st)"
  have unfold: "cf2_visit S i st =
     (if w ! i = FGPT
      then (case find (\<lambda>j. w ! j = FGPT \<and> set_empty S ga i j) (row_cols S i) of
          None \<Rightarrow> (st1\<lparr> graph_array := ga \<rparr>, False)
        | Some j \<Rightarrow>
            if C_i_nonempty st
            then let st2 = st1\<lparr> graph_array := ga, vec2 := w[i := CGPT], col2 := col2 st + 1 \<rparr>;
                     st2 = (if ct > - 1
                           then st2\<lparr> vec2 := (vec2 st2)[nat ct := FGPT],
                                    col2 := col2 st2 - 1, ci_tilde := - 1 \<rparr>
                           else st2)
                 in (st2\<lparr> C_i_nonempty := False \<rparr>, False)
            else (st1\<lparr> graph_array := ga, ci_tilde := int j, ci_tilde_mark := int i,
                        vec2 := w[j := CGPT], col2 := col2 st + 1,
                        C_i_nonempty := True \<rparr>, True))
      else (st1, False))"
    by (cases "(ci_tilde_mark st OR int i) = 0")
       (simp_all add: cf2_visit_def Let_def st1_def ct_def mark_def w_def ga_def
          split: option.splits)
  have len: "n \<le> length w" "length (graph_array st) = n"
    using inv by (simp_all add: cf2_inv_def w_def)
  have cov: "\<And>k. k < i \<Longrightarrow> w ! k = FGPT \<Longrightarrow> covered S w k"
    using inv by (simp add: cf2_inv_def w_def)
  have gold: "\<And>x. x < n \<Longrightarrow> graph_array st ! x < int i \<or>
        (graph_array st ! x = int i \<and> x \<in> set (row_cols S i) \<and> w ! x = CGPT)"
    using inv by (simp add: cf2_inv_def w_def)
  have ctold: "ci_tilde st > - 1 \<Longrightarrow> nat (ci_tilde st) < n \<and> w ! nat (ci_tilde st) = CGPT"
    using inv by (simp add: cf2_inv_def w_def)
  have ct_cases: "ct = - 1 \<or> (ct = ci_tilde st \<and> i = 0)"
    using or_zero_nat [of "ci_tilde_mark st" i] by (auto simp: ct_def mark_def)
  have ct_ok: "ct > - 1 \<Longrightarrow> nat ct < n \<and> w ! nat ct = CGPT \<and> i = 0"
    using ct_cases ctold by auto
  have galen: "length ga = n"
    using fold_cf2_mark_coarse [of w i "row_cols S i" "graph_array st"] len by (simp add: ga_def)
  have ganth: "ga ! x = (if x \<in> set (row_cols S i) \<and> w ! x = CGPT then int i else graph_array st ! x)"
    if "x < n" for x
    using fold_cf2_mark_coarse [of w i "row_cols S i" "graph_array st"] len that by (simp add: ga_def)
  have ga_le: "ga ! x \<le> int i" if "x < n" for x
    using ganth [OF that] gold [OF that] by auto
  have ga_eq: "x \<in> set (row_cols S i) \<and> w ! x = CGPT" if "x < n" "ga ! x = int i" for x
    using ganth [OF that(1)] gold [OF that(1)] that(2) by (auto split: if_splits)
  show ?thesis
  proof (cases "w ! i = FGPT")
    case False
    then have r: "st' = st1" "\<not> again"
      using v unfolding unfold by auto
    have gle: "graph_array st ! x \<le> int i" if "x < n" for x
      using gold [OF that] by auto
    have "cf2_inv S n st1 (Suc i)"
    proof (rule cf2_inv_next)
      show "n \<le> length (vec2 st1)" using len by (simp add: st1_def w_def)
      show "length (graph_array st1) = n" using len by (simp add: st1_def)
      show "covered S (vec2 st1) k" if "k < Suc i" "vec2 st1 ! k = FGPT" for k
        using that cov [of k] False by (cases "k = i") (auto simp: st1_def w_def)
      show "graph_array st1 ! x \<le> int i" if "x < n" for x
        using gle [OF that] by (simp add: st1_def)
      show "nat (ci_tilde st1) < n \<and> vec2 st1 ! nat (ci_tilde st1) = CGPT" if "ci_tilde st1 > - 1"
        using that ct_ok by (simp add: st1_def w_def)
    qed
    then show ?thesis using r by simp
  next
    case True
    note fine = True
    let ?st2 = "st1\<lparr> graph_array := ga \<rparr>"
    let ?found = "find (\<lambda>j. w ! j = FGPT \<and> set_empty S ga i j) (row_cols S i)"
    have unfold: "cf2_visit S i st =
       (case ?found of
          None \<Rightarrow> (?st2, False)
        | Some j \<Rightarrow>
            if C_i_nonempty st
            then let st2 = st1\<lparr> graph_array := ga, vec2 := w[i := CGPT], col2 := col2 st + 1 \<rparr>;
                     st2 = (if ct > - 1
                           then st2\<lparr> vec2 := (vec2 st2)[nat ct := FGPT],
                                    col2 := col2 st2 - 1, ci_tilde := - 1 \<rparr>
                           else st2)
                 in (st2\<lparr> C_i_nonempty := False \<rparr>, False)
            else (st1\<lparr> graph_array := ga, ci_tilde := int j, ci_tilde_mark := int i,
                        vec2 := w[j := CGPT], col2 := col2 st + 1,
                        C_i_nonempty := True \<rparr>, True))"
      unfolding unfold using fine by simp
    show ?thesis
    proof (cases ?found)
      case None
      then have r: "st' = ?st2" "\<not> again" using v unfolding unfold by auto
      have nofound: "\<And>j. j \<in> set (row_cols S i) \<Longrightarrow> w ! j = FGPT \<Longrightarrow> \<not> set_empty S ga i j"
        using None by (auto simp: find_None_iff)
      have "covered S w i"
        unfolding covered_def
      proof (intro ballI impI)
        fix j assume j: "j \<in> set (row_cols S i)" and jf: "w ! j = FGPT"
        then obtain c where c: "c \<in> set (row_cols S j)" "ga ! c = int i"
          using nofound by (auto simp: set_empty_def list_all_iff)
        have "j < n" using cols_okD [OF ok i j] .
        then have "c < n" using cols_okD [OF ok _ c(1)] by simp
        then show "\<exists>c \<in> set (row_cols S i) \<inter> set (row_cols S j). w ! c = CGPT"
          using ga_eq c by blast
      qed
      then have ci: "covered S w i" .
      have "cf2_inv S n ?st2 (Suc i)"
      proof (rule cf2_inv_next)
        show "n \<le> length (vec2 ?st2)" using len by (simp add: st1_def w_def)
        show "length (graph_array ?st2) = n" using galen by simp
        show "covered S (vec2 ?st2) k" if "k < Suc i" "vec2 ?st2 ! k = FGPT" for k
          using that cov [of k] ci by (cases "k = i") (auto simp: st1_def w_def)
        show "graph_array ?st2 ! x \<le> int i" if "x < n" for x
          using ga_le [OF that] by simp
        show "nat (ci_tilde ?st2) < n \<and> vec2 ?st2 ! nat (ci_tilde ?st2) = CGPT"
          if "ci_tilde ?st2 > - 1"
          using that ct_ok by (simp add: st1_def w_def)
      qed
      then show ?thesis using r by simp
    next
      case (Some j)
      then have j: "j \<in> set (row_cols S i)" "w ! j = FGPT"
        by (auto simp: find_Some_iff)
      have jn: "j < n" using cols_okD [OF ok i j(1)] .
      show ?thesis
      proof (cases "C_i_nonempty st")
        case False
        then have r: "st' = st1\<lparr> graph_array := ga, ci_tilde := int j, ci_tilde_mark := int i,
                        vec2 := w[j := CGPT], col2 := col2 st + 1,
                        C_i_nonempty := True \<rparr>" "again"
          using v Some unfolding unfold by auto
        have c1: "covered S (w[j := CGPT]) k" if "k < i" "w[j := CGPT] ! k = FGPT" for k
        proof -
          have "k \<noteq> j" using that(2) jn len by auto
          then have "w ! k = FGPT" using that(2) by simp
          then show ?thesis using cov [OF that(1)] covered_promote jn len by simp
        qed
        have c2: "ga ! x < int i \<or> (ga ! x = int i \<and> x \<in> set (row_cols S i) \<and> w[j := CGPT] ! x = CGPT)"
          if "x < n" for x
        proof (cases "ga ! x = int i")
          case True
          then have "x \<in> set (row_cols S i)" "w ! x = CGPT" using ga_eq [OF that] by auto
          then show ?thesis using True jn len by (cases "x = j") simp_all
        next
          case False then show ?thesis using ga_le [OF that] by simp
        qed
        have "cf2_inv S n st' i"
          unfolding cf2_inv_def r(1)
          using len galen c1 c2 jn by (simp add: st1_def)
        then show ?thesis using r False by simp
      next
        case True
        let ?w1 = "w[i := CGPT]"
        have r: "\<not> again"
          and rv: "vec2 st' = (if ct > - 1 then ?w1[nat ct := FGPT] else ?w1)"
          and rc: "ci_tilde st' = (if ct > - 1 then - 1 else ct)"
          and rg: "graph_array st' = ga"
          using v Some True unfolding unfold by (auto simp: Let_def st1_def)
        have il: "i < length w" using i len by simp
        have covS: "\<And>k. k < Suc i \<Longrightarrow> vec2 st' ! k = FGPT \<Longrightarrow> covered S (vec2 st') k"
        proof (cases "ct > - 1")
          case False
          fix k assume k: "k < Suc i" "vec2 st' ! k = FGPT"
          have v': "vec2 st' = ?w1" using rv False by simp
          have "k \<noteq> i" using k(2) il unfolding v' by auto
          then have "k < i" "w ! k = FGPT" using k unfolding v' by simp_all
          then show "covered S (vec2 st') k"
            unfolding v' using cov covered_promote il by simp
        next
          case True
          fix k assume k: "k < Suc i" "vec2 st' ! k = FGPT"
          have i0: "i = 0" and cc: "w ! nat ct = CGPT" "nat ct < n" using ct_ok [OF True] by auto
          have "nat ct \<noteq> i" using cc(1) fine by auto
          then have "vec2 st' ! i = CGPT" using rv True il by simp
          then have False using k i0 by simp
          then show "covered S (vec2 st') k" ..
        qed
        have lenS: "n \<le> length (vec2 st')" using rv len by simp
        have "cf2_inv S n st' (Suc i)"
        proof (rule cf2_inv_next)
          show "n \<le> length (vec2 st')" by (rule lenS)
          show "length (graph_array st') = n" using rg galen by simp
          show "covered S (vec2 st') k" if "k < Suc i" "vec2 st' ! k = FGPT" for k
            using that by (rule covS)
          show "graph_array st' ! x \<le> int i" if "x < n" for x
            using ga_le [OF that] rg by simp
          show "nat (ci_tilde st') < n \<and> vec2 st' ! nat (ci_tilde st') = CGPT"
            if "ci_tilde st' > - 1"
            using that rc by (auto split: if_splits)
        qed
        then show ?thesis using r by simp
      qed
    qed
  qed
qed


lemma cf_phase_two_inv:
  "cols_ok S n \<Longrightarrow> cf2_inv S n st i \<Longrightarrow> i \<le> n \<Longrightarrow> cf2_inv S n (cf_phase_two S n st i) n"
proof (induction S n st i rule: cf_phase_two.induct)
  case (1 S nrow st i)
  show ?case
  proof (cases "i < nrow")
    case False
    then have "i = nrow" using "1.prems" by simp
    then show ?thesis using "1.prems" by simp
  next
    case True
    obtain st' again where v: "cf2_visit S i st = (st', again)" by fastforce
    note step = cf2_visit_inv [OF "1.prems"(1) True "1.prems"(2) v]
    show ?thesis
    proof (cases again)
      case a: True
      have "cf2_inv S nrow (cf_phase_two S nrow st' i) nrow"
        using "1.IH"(1) [OF True v [symmetric] a "1.prems"(1)] step a "1.prems"(3) by simp
      then show ?thesis using True v a by simp
    next
      case a: False
      have "cf2_inv S nrow (cf_phase_two S nrow st' (Suc i)) nrow"
        using "1.IH"(2) [OF True v [symmetric] a "1.prems"(1)] step a True by simp
      then show ?thesis using True v a by simp
    qed
  qed
qed

lemma fold_vec_length:
  assumes "\<And>x st. length (vec (f x st)) = length (vec st)"
  shows "length (vec (fold f xs st)) = length (vec st)"
  by (induction xs arbitrary: st) (simp_all add: assms)

lemma cf_bump_length: "length (vec (cf_bump k st)) = length (vec st)"
  by (simp add: cf_bump_def Let_def)

lemma cf_bump_early_length: "length (vec (cf_bump_early i j st)) = length (vec st)"
  by (simp add: cf_bump_early_def Let_def)

lemma cf_make_fine_length: "length (vec (cf_make_fine S j st)) = length (vec st)"
  by (simp add: cf_make_fine_def Let_def fold_vec_length [of cf_bump, OF cf_bump_length])

lemma cf_lower_length: "length (vec (cf_lower S j st)) = length (vec st)"
  by (simp add: cf_lower_def Let_def fold_vec_length [of cf_bump, OF cf_bump_length])

lemma cf_pick_length: "length (vec (cf_pick S ST m st)) = length (vec st)"
  by (simp add: cf_pick_def Let_def
      fold_vec_length [of "cf_make_fine S", OF cf_make_fine_length]
      fold_vec_length [of "cf_lower S", OF cf_lower_length])

lemma cf_init_vertex_length: "length (vec (cf_init_vertex ia i st)) = length (vec st)"
  by (simp add: cf_init_vertex_def)

lemma cf_filter_vertex_length: "length (vec (cf_filter_vertex S i st)) = length (vec st)"
  by (simp add: cf_filter_vertex_def Let_def
      fold_vec_length [of "cf_bump_early i", OF cf_bump_early_length])

lemma cf_main_loop_length:
  assumes "cf_main_loop S ST st = Some st'"
  shows "length (vec st') = length (vec st)"
proof (rule cf_main_loop.raw_induct
    [where P = "\<lambda>S ST st st'. length (vec st') = length (vec st)", OF _ assms])
  fix loop S ST st st'
  assume IH: "\<And>S ST st st'. loop S ST st = Some st' \<Longrightarrow> length (vec st') = length (vec st)"
    and eq: "(if 0 < num_left st
      then case LoL_head (LoL st) of None \<Rightarrow> None
           | Some maxnode \<Rightarrow> loop S ST (cf_pick S ST maxnode st)
      else Some st) = Some st'"
  show "length (vec st') = length (vec st)"
  proof (cases "num_left st > 0")
    case False
    then show ?thesis using eq by simp
  next
    case True
    then obtain m where m: "LoL_head (LoL st) = Some m"
      and r: "loop S ST (cf_pick S ST m st) = Some st'"
      using eq by (auto split: option.splits)
    show ?thesis using IH [OF r] by (simp add: cf_pick_length)
  qed
qed

lemma cf_phase_one_length:
  "cf_phase_one A S vertices n = Some st \<Longrightarrow> length (vec st) = length vertices"
  unfolding cf_phase_one_def Let_def
  by (drule cf_main_loop_length)
     (simp add: fold_vec_length [of "cf_filter_vertex S", OF cf_filter_vertex_length]
        fold_vec_length [of "cf_init_vertex (IA A)", OF cf_init_vertex_length])

lemma cf2_inv_init:
  assumes "n \<le> length v"
  shows "cf2_inv S n \<lparr> vec2 = v, col2 = c, ci_tilde = - 1, ci_tilde_mark = - 1,
                        C_i_nonempty = False, graph_array = replicate n (- 1) \<rparr> 0"
  using assms by (simp add: cf2_inv_def)

lemma form_coarse_level_covered:
  assumes ok: "cols_ok S n" and len: "n \<le> length vertices" and std: "interp_type \<noteq> INTERP_STD"
    and r: "form_coarse_level INTERP_STD A S vertices n interp_type = Some (v, c)"
    and k: "k < n" and f: "v ! k = FGPT"
  shows "covered S v k"
proof -
  obtain st where p1: "cf_phase_one A S vertices n = Some st"
    using r by (auto simp: form_coarse_level_def split: option.splits)
  let ?init = "\<lparr> vec2 = vec st, col2 = ncol st, ci_tilde = - 1, ci_tilde_mark = - 1,
                 C_i_nonempty = False, graph_array = replicate n (- 1) \<rparr>"
  have v: "v = vec2 (cf_phase_two S n ?init 0)"
    using r p1 std by (simp add: form_coarse_level_def Let_def)
  have "n \<le> length (vec st)" using cf_phase_one_length [OF p1] len by simp
  then have "cf2_inv S n ?init 0" by (rule cf2_inv_init)
  then have "cf2_inv S n (cf_phase_two S n ?init 0) n"
    using cf_phase_two_inv [OF ok] by simp
  then show ?thesis using k f unfolding v by (simp add: cf2_inv_def)
qed

text \<open>
  C2, as stated: after the splitting with a non-standard interpolation every fine vertex
  has a coarse vertex within two hops of the strength graph. This fails for a vertex
  without strong neighbours on which no vertex depends: its measure is 0, step 3 of
  phase one labels it fine, and phase two finds nothing to repair. In \<open>A_cov\<close> this is
  vertex 0 (the interpolation code 1 is not the standard one, taken as 3 here).
\<close>

theorem form_coarse_level_coverage_counterexample:
  "form_coarse_level 3 A_cov (generate_S (1 / 1000) (9 / 10) (1 / 4) A_cov) [0, 0, 0] 3 1
     = Some ([FGPT, CGPT, FGPT], 1) \<and>
   \<not> two_hop_coarse (generate_S (1 / 1000) (9 / 10) (1 / 4) A_cov) [FGPT, CGPT, FGPT] 0"
  by code_simp

text \<open>
  C2, amended: after the splitting of \<open>form_coarse_level\<close> with a non-standard
  interpolation, every fine vertex that has at least one strong neighbour labelled fine
  or coarse has a coarse vertex among its strong neighbours, and hence within two hops
  (fine vertices all of whose strong neighbours are isolated, or that have none, are not
  covered). The strong neighbours are taken among the \<open>nrow\<close> vertices of the level.
\<close>

theorem form_coarse_level_coverage:
  assumes "cols_ok S nrow" and "nrow \<le> length vertices" and "interp_type \<noteq> INTERP_STD"
    and "form_coarse_level INTERP_STD A S vertices nrow interp_type = Some (v, c)"
    and "k < nrow" and "v ! k = FGPT"
    and "list_ex (\<lambda>j. v ! j = FGPT \<or> v ! j = CGPT) (row_cols S k)"
  shows "one_hop_coarse S v k \<and> two_hop_coarse S v k"
proof -
  have cov: "covered S v k"
    using form_coarse_level_covered [OF assms(1-6)] .
  obtain j where j: "j \<in> set (row_cols S k)" "v ! j = FGPT \<or> v ! j = CGPT"
    using assms(7) by (auto simp: list_ex_iff)
  have "\<exists>c \<in> set (row_cols S k). v ! c = CGPT"
  proof (cases "v ! j = CGPT")
    case True then show ?thesis using j(1) by blast
  next
    case False
    then have "v ! j = FGPT" using j(2) by simp
    then show ?thesis using cov j(1) by (auto simp: covered_def)
  qed
  then show ?thesis
    by (auto simp: one_hop_coarse_def two_hop_coarse_def list_ex_iff)
qed

theorem form_coarse_level_coverage_witness:
  "cols_ok (generate_S (1 / 1000) (9 / 10) (1 / 4) A3) 3 \<and>
   form_coarse_level 3 A3 (generate_S (1 / 1000) (9 / 10) (1 / 4) A3) [0, 0, 0] 3 1
     = Some ([FGPT, CGPT, FGPT], 1) \<and>
   one_hop_coarse (generate_S (1 / 1000) (9 / 10) (1 / 4) A3) [FGPT, CGPT, FGPT] 0 \<and>
   two_hop_coarse (generate_S (1 / 1000) (9 / 10) (1 / 4) A3) [FGPT, CGPT, FGPT] 0"
proof -
  let ?S = "generate_S (1 / 1000) (9 / 10) (1 / 4) A3"
  have h: "cols_ok ?S 3" "(3::nat) \<le> length [0::int, 0, 0]" "(1::int) \<noteq> 3"
    "form_coarse_level 3 A3 ?S [0, 0, 0] 3 1 = Some ([FGPT, CGPT, FGPT], 1)"
    "(0::nat) < 3" "[FGPT, CGPT, FGPT] ! 0 = FGPT"
    "list_ex (\<lambda>j. [FGPT, CGPT, FGPT] ! j = FGPT \<or> [FGPT, CGPT, FGPT] ! j = CGPT) (row_cols ?S 0)"
    by code_simp+
  show ?thesis
    using form_coarse_level_coverage [OF h] h(1,4) by simp
qed

section \<open>Unrecognized types\<close>

text \<open>
  \<open>fasp_amg_coarsening_rs\<close> returns \<open>ERROR_AMG_COARSE_TYPE\<close> exactly for the coarsening
  types that it has no case for (the code being different from the other two statuses
  that it returns).
\<close>

lemma fasp_amg_coarsening_rs_error_iff:
  assumes "error_amg_coarse_type mc \<noteq> SUCCESS" "error_amg_coarse_type mc \<noteq> RUN_FAIL"
  shows "(\<exists>r. fasp_amg_coarsening_rs mc ext A vertices P S param = Some (error_amg_coarse_type mc, r))
           \<longleftrightarrow> \<not> coarse_recognized mc (coarsening_type param)"
  using assms
  by (auto simp: fasp_amg_coarsening_rs_def Let_def split: option.splits if_splits prod.splits)

text \<open>
  C7. With the interpolation type \<open>INTERP_STD\<close> (and a coarsening type other than 4),
  \<open>fasp_amg_interp\<close> runs \<open>interp_STD\<close> and then, for want of a \<open>break\<close>, the call
  \<open>fasp_chkerr(ERROR_AMG_INTERP_TYPE, ...)\<close> of the default case: the program ends with
  the interpolation-type error although the type is a recognized one.
\<close>

theorem fasp_amg_interp_standard_exits:
  assumes "macros_ok mc" "error_amg_interp_type mc < 0"
    and "coarsening_type param \<noteq> 4" "interpolation_type param = interp_std mc"
  shows "interp_recognized mc (interpolation_type param) \<and>
         fasp_amg_interp mc ext A vertices P S param = Exited (error_amg_interp_type mc)"
  using assms
  by (auto simp: fasp_amg_interp_def fasp_chkerr_def macros_ok_def interp_recognized_def Let_def)

theorem fasp_amg_interp_standard_exits_witness:
  "macros_ok mc_ex \<and> error_amg_interp_type mc_ex < 0
   \<and> coarsening_type (param_ex\<lparr> interpolation_type := 3 \<rparr>) \<noteq> 4
   \<and> interpolation_type (param_ex\<lparr> interpolation_type := 3 \<rparr>) = interp_std mc_ex
   \<and> fasp_amg_interp mc_ex ext_ex (A_diag 1) [1] empty_mat empty_mat
        (param_ex\<lparr> interpolation_type := 3 \<rparr>) = Exited (- 40)"
  using fasp_amg_interp_standard_exits [of mc_ex "param_ex\<lparr> interpolation_type := 3 \<rparr>"
      ext_ex "A_diag 1" "[1]" empty_mat empty_mat]
  by (simp add: macros_ok_def mc_ex_def param_ex_def INTERP_REG_def)

section \<open>The recursive cycle\<close>

lemma fold_update_length [simp]:
  "length (fold (\<lambda>i y. y[i := g i y]) [0 ..< n] y) = length y"
  by (induction n) simp_all

lemma fold_update_nth:
  "fold (\<lambda>i y. y[i := g i (y ! i)]) [0 ..< n] y ! j
   = (if j < n \<and> j < length y then g j (y ! j) else y ! j)"
proof (induction n)
  case 0 show ?case by simp
next
  case (Suc n)
  have len: "length (fold (\<lambda>i y. y[i := g i (y ! i)]) [0 ..< n] y) = length y"
    by (rule fold_update_length [where g = "\<lambda>i y. g i (y ! i)"])
  show ?case
  proof (cases "n < length y")
    case True
    thus ?thesis using Suc len by (auto simp: nth_list_update less_Suc_eq)
  next
    case False
    thus ?thesis using Suc len by (auto simp: list_update_beyond less_Suc_eq)
  qed
qed

lemma length_fasp_array_cp [simp]: "length (fasp_array_cp n x y) = length y"
  by (simp add: fasp_array_cp_def)

lemma length_aAxpy [simp]: "length (fasp_blas_dcsr_aAxpy alpha M x y) = length y"
  by (simp add: fasp_blas_dcsr_aAxpy_def)

lemma length_mxv [simp]: "length (fasp_blas_dcsr_mxv M x y) = length y"
  by (simp add: fasp_blas_dcsr_mxv_def)

lemma length_dvec_set [simp]: "length (dval (fasp_dvec_set n x v)) = length (dval x)"
  by (simp add: fasp_dvec_set_def Let_def)

lemma nth_fasp_array_cp:
  "fasp_array_cp n x y ! j = (if j < n \<and> j < length y then x ! j else y ! j)"
  unfolding fasp_array_cp_def by (rule fold_update_nth [where g = "\<lambda>i _. x ! i"])

lemma nth_aAxpy:
  "fasp_blas_dcsr_aAxpy alpha M x y ! j
   = (if j < row M \<and> j < length y then y ! j + alpha * csr_row_dot M x j else y ! j)"
  unfolding fasp_blas_dcsr_aAxpy_def
  by (rule fold_update_nth [where g = "\<lambda>i a. a + alpha * csr_row_dot M x i"])

lemma nth_mxv:
  "fasp_blas_dcsr_mxv M x y ! j
   = (if j < row M \<and> j < length y then csr_row_dot M x j else y ! j)"
  unfolding fasp_blas_dcsr_mxv_def
  by (rule fold_update_nth [where g = "\<lambda>i _. csr_row_dot M x i"])

lemma nth_dvec_set:
  "dval (fasp_dvec_set n x v) ! j
   = (if int j < (if n > 0 then n else drow x) \<and> j < length (dval x) then v else dval x ! j)"
  unfolding fasp_dvec_set_def Let_def
  using fold_update_nth [where g = "\<lambda>i _. v" and y = "dval x" and j = j]
  by auto

lemma drow_dvec_set: "drow (fasp_dvec_set n x v) = (if n > 0 then n else drow x)"
  by (simp add: fasp_dvec_set_def Let_def)

lemma static_eq_refl [simp]: "static_eq d d"
  by (simp add: static_eq_def)

lemma static_eq_trans: "static_eq a b \<Longrightarrow> static_eq b c \<Longrightarrow> static_eq a c"
  by (simp add: static_eq_def)

lemma static_eq_sym: "static_eq a b \<Longrightarrow> static_eq b a"
  by (simp add: static_eq_def)

lemma static_steps [simp]:
  "static_eq (pre_smooth ext param level d) d"
  "static_eq (form_residual d) d"
  "static_eq (restriction d0 d) d"
  "static_eq (zero_guess d) d"
  "static_eq (prolongation d d1) d"
  "static_eq (post_smooth ext param level d) d"
  "static_eq (coarse_solve ext param d) d"
  by (simp_all add: static_eq_def pre_smooth_def form_residual_def restriction_def zero_guess_def
        prolongation_def post_smooth_def coarse_solve_def Let_def)

lemma b_steps [simp]:
  "mgl_b (pre_smooth ext param level d) = mgl_b d"
  "mgl_b (form_residual d) = mgl_b d"
  "mgl_b (zero_guess d) = mgl_b d"
  "mgl_b (prolongation d d1) = mgl_b d"
  "mgl_b (post_smooth ext param level d) = mgl_b d"
  "mgl_b (coarse_solve ext param d) = mgl_b d"
  by (simp_all add: pre_smooth_def form_residual_def zero_guess_def
        prolongation_def post_smooth_def coarse_solve_def Let_def)

lemma level_ok_steps:
  assumes "ext_ok ext" "level_ok d"
  shows "level_ok (pre_smooth ext param level d)"
    "level_ok (form_residual d)"
    "level_ok (restriction d0 d)"
    "level_ok (zero_guess d)"
    "level_ok (prolongation d d1)"
    "level_ok (post_smooth ext param level d)"
    "level_ok (coarse_solve ext param d)"
  using assms
  by (simp_all add: level_ok_def ext_ok_def pre_smooth_def form_residual_def restriction_def
        zero_guess_def prolongation_def post_smooth_def coarse_solve_def Let_def drow_dvec_set)

lemma pres_refl: "length h = n \<Longrightarrow> \<forall>l<n. level_ok (h ! l) \<Longrightarrow> pres n level h h"
  by (simp add: pres_def)

lemma pres_trans: "pres n level h g \<Longrightarrow> pres n level g k \<Longrightarrow> pres n level h k"
  unfolding pres_def by (auto intro: static_eq_trans)

lemma mgrecur_pres_aux:
  "(ext_ok ext \<longrightarrow> length h = n \<longrightarrow> (\<forall>l<n. level_ok (h ! l)) \<longrightarrow>
      (\<forall>g. mgrecur ext param n h level = Some g \<longrightarrow> pres n level h g))"
  "(ext_ok ext \<longrightarrow> length h = n \<longrightarrow> (\<forall>l<n. level_ok (h ! l)) \<longrightarrow> level < n \<longrightarrow>
      (\<forall>g. mgrecur_times ext param n h level i = Some g \<longrightarrow> pres n level h g))"
proof (induction ext param n h level and ext param n h level i rule: mgrecur_mgrecur_times.induct)
  case (1 ext param n h level)
  show ?case
  proof (intro impI allI)
    fix g
    assume ext: "ext_ok ext" and len: "length h = n" and ok: "\<forall>l<n. level_ok (h ! l)"
      and run: "mgrecur ext param n h level = Some g"
    have lev: "level < n" using run by (subst (asm) mgrecur.simps) (simp split: if_splits)
    show "pres n level h g"
    proof (cases "int level < num_levels (h ! level) - 1")
      case False
      hence "g = h[level := coarse_solve ext param (h ! level)]"
        using run lev by (subst (asm) mgrecur.simps) simp
      thus ?thesis using len ok lev ext
        by (auto simp: pres_def nth_list_update level_ok_steps)
    next
      case True
      define d0 where "d0 = form_residual (pre_smooth ext param level (h ! level))"
      define d1 where "d1 = zero_guess (restriction d0 (h ! Suc level))"
      define h1 where "h1 = h[level := d0, Suc level := d1]"
      have lev1: "Suc level < n" using run True lev
        by (subst (asm) mgrecur.simps) (simp split: if_splits)
      obtain g1 where t: "mgrecur_times ext param n h1 (Suc level) (nat (cycle_type param)) = Some g1"
        and g: "g = g1[level := post_smooth ext param level (prolongation (g1 ! level) (g1 ! Suc level))]"
        using run True lev lev1
        by (subst (asm) mgrecur.simps)
           (auto simp: Let_def d0_def [symmetric] d1_def [symmetric] h1_def [symmetric]
                 split: option.splits)
      have ok0: "level_ok d0" unfolding d0_def using ext ok lev by (simp add: level_ok_steps)
      have ok1: "level_ok d1" unfolding d1_def using ext ok lev1 by (simp add: level_ok_steps)
      have p1: "pres n level h h1"
        using len ok lev lev1 ok0 ok1
        by (auto simp: pres_def h1_def nth_list_update d0_def d1_def
                 intro: static_eq_trans [OF static_steps(2) static_steps(1)]
                        static_eq_trans [OF static_steps(4) static_steps(3)])
      have "pres n (Suc level) h1 g1"
        using 1 [OF _ True _ d0_def d1_def h1_def] lev lev1 ext t p1 by (simp add: pres_def)
      hence p2: "pres n level h1 g1 \<and> g1 ! level = h1 ! level"
        by (auto simp: pres_def)
      have "level_ok (g1 ! level)" using p2 lev unfolding pres_def by blast
      hence "pres n level g1 g"
        unfolding g using p2 lev ext
        by (auto simp: pres_def nth_list_update level_ok_steps
                 intro: static_eq_trans [OF static_steps(6) static_steps(5)])
      thus ?thesis using p1 p2 by (blast intro: pres_trans)
    qed
  qed
next
  case (2 ext param n h level)
  show ?case by (simp add: pres_refl)
next
  case (3 ext param n h level i)
  show ?case
  proof (intro impI allI)
    fix g
    assume ext: "ext_ok ext" and len: "length h = n" and ok: "\<forall>l<n. level_ok (h ! l)"
      and lev: "level < n" and run: "mgrecur_times ext param n h level (Suc i) = Some g"
    obtain g1 where r1: "mgrecur ext param n h level = Some g1"
      and r2: "mgrecur_times ext param n g1 level i = Some g"
      using run by (auto split: option.splits)
    have p1: "pres n level h g1" using 3(1) ext len ok r1 by simp
    hence "pres n level g1 g" using 3(2) [OF r1] ext lev r2 by (simp add: pres_def)
    thus "pres n level h g" using p1 by (blast intro: pres_trans)
  qed
qed

lemma link_ok_static:
  "static_eq a a' \<Longrightarrow> static_eq b b' \<Longrightarrow> link_ok a b \<Longrightarrow> link_ok a' b'"
  by (simp add: link_ok_def static_eq_def)

lemma pres_hierarchy_ok:
  assumes "pres n level h g" "hierarchy_ok h" "length h = n"
  shows "hierarchy_ok g"
  unfolding hierarchy_ok_def
proof (intro conjI ballI)
  fix l assume "l \<in> {0 ..< length g}"
  thus "level_ok (g ! l)" using assms(1) by (simp add: pres_def)
next
  fix l assume l: "l \<in> {0 ..< length g - 1}"
  hence l': "l < n" "Suc l < n" using assms(1) by (auto simp: pres_def)
  hence "link_ok (h ! l) (h ! Suc l)" using assms(2,3) by (simp add: hierarchy_ok_def)
  moreover have "static_eq (h ! l) (g ! l)" "static_eq (h ! Suc l) (g ! Suc l)"
    using assms(1) l' by (auto simp: pres_def intro: static_eq_sym)
  ultimately show "link_ok (g ! l) (g ! Suc l)" by (rule link_ok_static [rotated 2])
qed

lemma down_pres:
  assumes "ext_ok ext" "length h = n" "\<forall>l<n. level_ok (h ! l)" "Suc level < n"
    and "d0 = form_residual (pre_smooth ext param level (h ! level))"
    and "d1 = zero_guess (restriction d0 (h ! Suc level))"
  shows "pres n level h (h[level := d0, Suc level := d1])"
proof -
  have ok0: "level_ok d0" unfolding assms(5) using assms(1,3,4) by (simp add: level_ok_steps)
  have ok1: "level_ok d1" unfolding assms(6) using assms(1,3,4) by (simp add: level_ok_steps)
  show ?thesis
    using assms(2,3,4) ok0 ok1
    by (auto simp: pres_def nth_list_update assms(5,6)
             intro: static_eq_trans [OF static_steps(2) static_steps(1)]
                    static_eq_trans [OF static_steps(4) static_steps(3)])
qed

lemma pre_smooth_x:
  assumes "static_eq d d'" "mgl_x d = mgl_x d'" "mgl_b d = mgl_b d'"
  shows "mgl_x (pre_smooth ext param level d) = mgl_x (pre_smooth ext param level d')"
  using assms by (simp add: pre_smooth_def static_eq_def Let_def)

lemma x_form_residual [simp]: "mgl_x (form_residual d) = mgl_x d"
  by (simp add: form_residual_def Let_def)

lemma residual_nth:
  assumes "i < row (mgl_A d)" "row (mgl_A d) \<le> length (dval (mgl_w d))"
  shows "dval (mgl_w (form_residual d)) ! i
         = dval (mgl_b d) ! i + - 1 * csr_row_dot (mgl_A d) (dval (mgl_x d)) i"
  using assms by (simp add: form_residual_def Let_def nth_aAxpy nth_fasp_array_cp)

lemma residual_agree:
  assumes "static_eq d d'" "mgl_x d = mgl_x d'" "mgl_b d = mgl_b d'"
    and "row (mgl_A d) \<le> length (dval (mgl_w d))" "row (mgl_A d) \<le> length (dval (mgl_w d'))"
    and "i < row (mgl_A d)"
  shows "dval (mgl_w (form_residual d)) ! i = dval (mgl_w (form_residual d')) ! i"
proof -
  have A: "mgl_A d' = mgl_A d" using assms(1) by (simp add: static_eq_def)
  show ?thesis
    using residual_nth [of i d] residual_nth [of i d'] assms(2-6) by (simp add: A)
qed

lemma csr_row_dot_agree:
  assumes "\<forall>k \<in> {IA M ! j ..< IA M ! Suc j}. r ! (JA M ! k) = r' ! (JA M ! k)"
  shows "csr_row_dot M r j = csr_row_dot M r' j"
  unfolding csr_row_dot_def
  by (rule arg_cong [where f = sum_list], rule map_cong) (use assms in auto)

lemma next_level_agree:
  assumes st0: "static_eq d0 d0'" and st1: "static_eq e e'"
    and ok: "level_ok e" "level_ok e'" and link: "link_ok d0 e"
    and w: "\<forall>i<row (mgl_A d0). dval (mgl_w d0) ! i = dval (mgl_w d0') ! i"
  shows "mgl_b (zero_guess (restriction d0 e)) = mgl_b (zero_guess (restriction d0' e'))"
    and "mgl_x (zero_guess (restriction d0 e)) = mgl_x (zero_guess (restriction d0' e'))"
proof -
  have R: "mgl_R d0' = mgl_R d0" and A1: "mgl_A e' = mgl_A e"
    using st0 st1 by (simp_all add: static_eq_def)
  have rows: "row (mgl_R d0) = row (mgl_A e)" using link by (simp add: link_ok_def)
  have dot: "csr_row_dot (mgl_R d0) (dval (mgl_w d0)) j = csr_row_dot (mgl_R d0) (dval (mgl_w d0')) j"
    if "j < row (mgl_R d0)" for j
    using link w that by (intro csr_row_dot_agree) (auto simp: link_ok_def)
  have "dval (mgl_b (restriction d0 e)) = dval (mgl_b (restriction d0' e'))"
  proof (rule nth_equalityI)
    show "length (dval (mgl_b (restriction d0 e))) = length (dval (mgl_b (restriction d0' e')))"
      using ok by (simp add: restriction_def level_ok_def A1)
  next
    fix j assume "j < length (dval (mgl_b (restriction d0 e)))"
    hence j: "j < row (mgl_A e)" using ok by (simp add: restriction_def level_ok_def)
    thus "dval (mgl_b (restriction d0 e)) ! j = dval (mgl_b (restriction d0' e')) ! j"
      using ok dot [of j] rows by (simp add: restriction_def nth_mxv level_ok_def R A1)
  qed
  moreover have "drow (mgl_b (restriction d0 e)) = drow (mgl_b (restriction d0' e'))"
    using ok by (simp add: restriction_def level_ok_def A1)
  ultimately show "mgl_b (zero_guess (restriction d0 e)) = mgl_b (zero_guess (restriction d0' e'))"
    by (simp add: dvector.equality)
  have x: "mgl_x (restriction d0 e) = mgl_x e" "mgl_x (restriction d0' e') = mgl_x e'"
    "mgl_A (restriction d0 e) = mgl_A e" "mgl_A (restriction d0' e') = mgl_A e"
    by (simp_all add: restriction_def A1)
  have "dval (mgl_x (zero_guess (restriction d0 e))) = dval (mgl_x (zero_guess (restriction d0' e')))"
  proof (rule nth_equalityI)
    show "length (dval (mgl_x (zero_guess (restriction d0 e))))
          = length (dval (mgl_x (zero_guess (restriction d0' e'))))"
      using ok by (simp add: zero_guess_def x level_ok_def A1)
  next
    fix j assume "j < length (dval (mgl_x (zero_guess (restriction d0 e))))"
    hence j: "j < row (mgl_A e)" using ok by (simp add: zero_guess_def x level_ok_def)
    thus "dval (mgl_x (zero_guess (restriction d0 e))) ! j
          = dval (mgl_x (zero_guess (restriction d0' e'))) ! j"
      using ok by (simp add: zero_guess_def x nth_dvec_set level_ok_def A1)
  qed
  moreover have "drow (mgl_x (zero_guess (restriction d0 e)))
                 = drow (mgl_x (zero_guess (restriction d0' e')))"
    using ok by (simp add: zero_guess_def x drow_dvec_set level_ok_def A1)
  ultimately show "mgl_x (zero_guess (restriction d0 e)) = mgl_x (zero_guess (restriction d0' e'))"
    by (simp add: dvector.equality)
qed

lemma up_x:
  assumes "static_eq d d'" "mgl_x d = mgl_x d'" "mgl_b d = mgl_b d'" "mgl_x e = mgl_x e'"
  shows "mgl_x (post_smooth ext param level (prolongation d e))
         = mgl_x (post_smooth ext param level (prolongation d' e'))"
  using assms by (simp add: post_smooth_def prolongation_def static_eq_def Let_def)

lemma coarse_x:
  assumes "static_eq d d'" "mgl_x d = mgl_x d'" "mgl_b d = mgl_b d'"
  shows "mgl_x (coarse_solve ext param d) = mgl_x (coarse_solve ext param d')"
  using assms by (simp add: coarse_solve_def static_eq_def)

lemma agree_levels:
  assumes "agree level h h'" "l < length h"
  shows "level_ok (h ! l)" "level_ok (h' ! l)" "static_eq (h ! l) (h' ! l)"
  using assms by (simp_all add: agree_def hierarchy_ok_def)

lemma agree_after:
  assumes a: "agree level h h'" and n: "length h = n"
    and p: "pres n level h g" "pres n level h' g'"
    and x: "mgl_x (g ! level) = mgl_x (g' ! level)"
  shows "agree level g g'"
proof -
  have len: "length g = n" "length g' = n" "length h' = n"
    using p a n by (simp_all add: pres_def agree_def)
  have "hierarchy_ok g" "hierarchy_ok g'"
    using pres_hierarchy_ok [OF p(1) _ n] pres_hierarchy_ok [OF p(2) _ len(3)] a
    by (simp_all add: agree_def)
  moreover have "static_eq (g ! l) (g' ! l)" if "l < n" for l
  proof -
    have "static_eq (g ! l) (h ! l)" "static_eq (h ! l) (h' ! l)" "static_eq (h' ! l) (g' ! l)"
      using p a n that by (auto simp: pres_def agree_def intro: static_eq_sym)
    thus ?thesis by (blast intro: static_eq_trans)
  qed
  moreover have "mgl_b (g ! level) = mgl_b (g' ! level)"
    using p a by (simp add: pres_def agree_def)
  ultimately show ?thesis using len x by (simp add: agree_def)
qed

lemma mgrecur_agree_aux:
  "(ext_ok ext \<longrightarrow> length h = n \<longrightarrow>
      (\<forall>h'. agree level h h' \<longrightarrow>
         ((mgrecur ext param n h level = None) = (mgrecur ext param n h' level = None))
         \<and> (\<forall>g g'. mgrecur ext param n h level = Some g \<longrightarrow> mgrecur ext param n h' level = Some g'
               \<longrightarrow> mgl_x (g ! level) = mgl_x (g' ! level))))"
  "(ext_ok ext \<longrightarrow> length h = n \<longrightarrow> level < n \<longrightarrow>
      (\<forall>h'. agree level h h' \<longrightarrow>
         ((mgrecur_times ext param n h level i = None) = (mgrecur_times ext param n h' level i = None))
         \<and> (\<forall>g g'. mgrecur_times ext param n h level i = Some g
               \<longrightarrow> mgrecur_times ext param n h' level i = Some g'
               \<longrightarrow> mgl_x (g ! level) = mgl_x (g' ! level))))"
proof (induction ext param n h level and ext param n h level i rule: mgrecur_mgrecur_times.induct)
  case (1 ext param n h level)
  show ?case
  proof (intro impI allI)
    fix h'
    assume ext: "ext_ok ext" and len: "length h = n" and a: "agree level h h'"
    have len': "length h' = n" using a len by (simp add: agree_def)
    let ?goal = "((mgrecur ext param n h level = None) = (mgrecur ext param n h' level = None))
         \<and> (\<forall>g g'. mgrecur ext param n h level = Some g \<longrightarrow> mgrecur ext param n h' level = Some g'
               \<longrightarrow> mgl_x (g ! level) = mgl_x (g' ! level))"
    show ?goal
    proof (cases "level < n")
      case False
      thus ?thesis by (subst (1 2 3 4) mgrecur.simps) simp
    next
      case lev: True
      note lv = agree_levels [OF a, unfolded len, OF lev]
      have nl: "num_levels (h' ! level) = num_levels (h ! level)"
        using lv(3) by (simp add: static_eq_def)
      have xb: "mgl_x (h ! level) = mgl_x (h' ! level)" "mgl_b (h ! level) = mgl_b (h' ! level)"
        using a by (simp_all add: agree_def)
      show ?thesis
      proof (cases "int level < num_levels (h ! level) - 1")
        case False
        have "mgrecur ext param n h level = Some (h[level := coarse_solve ext param (h ! level)])"
          "mgrecur ext param n h' level = Some (h'[level := coarse_solve ext param (h' ! level)])"
          using False lev nl by (subst mgrecur.simps, simp)+
        thus ?thesis using lev len len' coarse_x [OF lv(3) xb] by simp
      next
        case True
        show ?thesis
        proof (cases "Suc level < n")
          case False
          thus ?thesis using True nl lev by (subst (1 2 3 4) mgrecur.simps) simp
        next
          case lev1: True
          note lv1 = agree_levels [OF a, unfolded len, OF lev1]
          define d0 where "d0 = form_residual (pre_smooth ext param level (h ! level))"
          define d1 where "d1 = zero_guess (restriction d0 (h ! Suc level))"
          define h1 where "h1 = h[level := d0, Suc level := d1]"
          define d0' where "d0' = form_residual (pre_smooth ext param level (h' ! level))"
          define d1' where "d1' = zero_guess (restriction d0' (h' ! Suc level))"
          define h1' where "h1' = h'[level := d0', Suc level := d1']"
          let ?c = "nat (cycle_type param)"
          have run: "mgrecur ext param n h level =
               (case mgrecur_times ext param n h1 (Suc level) ?c of None \<Rightarrow> None
                | Some g \<Rightarrow> Some (g[level := post_smooth ext param level
                                            (prolongation (g ! level) (g ! Suc level))]))"
            using True lev lev1
            by (subst mgrecur.simps) (simp add: Let_def d0_def d1_def h1_def)
          have run': "mgrecur ext param n h' level =
               (case mgrecur_times ext param n h1' (Suc level) ?c of None \<Rightarrow> None
                | Some g \<Rightarrow> Some (g[level := post_smooth ext param level
                                            (prolongation (g ! level) (g ! Suc level))]))"
            using True lev lev1 nl
            by (subst mgrecur.simps) (simp add: Let_def d0'_def d1'_def h1'_def)
          have oks: "\<forall>l<n. level_ok (h ! l)" "\<forall>l<n. level_ok (h' ! l)"
            using a len by (simp_all add: agree_def hierarchy_ok_def)
          have p1: "pres n level h h1" unfolding h1_def
            by (rule down_pres [OF ext len oks(1) lev1 d0_def d1_def])
          have p1': "pres n level h' h1'" unfolding h1'_def
            by (rule down_pres [OF ext len' oks(2) lev1 d0'_def d1'_def])
          have st0: "static_eq (pre_smooth ext param level (h ! level))
                       (pre_smooth ext param level (h' ! level))"
            by (meson static_eq_trans static_eq_sym static_steps(1) lv(3))
          have px: "mgl_x (pre_smooth ext param level (h ! level))
                    = mgl_x (pre_smooth ext param level (h' ! level))"
            by (rule pre_smooth_x [OF lv(3) xb])
          have A: "mgl_A (pre_smooth ext param level (h ! level)) = mgl_A (h ! level)"
            "mgl_w (pre_smooth ext param level (h ! level)) = mgl_w (h ! level)"
            "mgl_w (pre_smooth ext param level (h' ! level)) = mgl_w (h' ! level)"
            "mgl_A (form_residual (pre_smooth ext param level (h ! level))) = mgl_A (h ! level)"
            by (simp_all add: pre_smooth_def form_residual_def Let_def)
          have w: "\<forall>i<row (mgl_A d0). dval (mgl_w d0) ! i = dval (mgl_w d0') ! i"
            unfolding d0_def d0'_def
            using residual_agree [OF st0 px] lv(1,2,3) xb
            by (simp add: A level_ok_def static_eq_def)
          have sd0: "static_eq d0 d0'"
            unfolding d0_def d0'_def
            by (meson static_eq_trans static_eq_sym static_steps(2) st0)
          have link: "link_ok d0 (h ! Suc level)"
          proof -
            have "link_ok (h ! level) (h ! Suc level)"
              using a lev1 len by (simp add: agree_def hierarchy_ok_def)
            moreover have "static_eq (h ! level) d0"
              unfolding d0_def by (meson static_eq_trans static_eq_sym static_steps(1,2))
            ultimately show ?thesis by (rule link_ok_static [rotated 2]) simp
          qed
          have d1eq: "mgl_b d1 = mgl_b d1'" "mgl_x d1 = mgl_x d1'"
            unfolding d1_def d1'_def
            by (rule next_level_agree [OF sd0 lv1(3) lv1(1) lv1(2) link w])+
          have lens: "length h1 = n" "length h1' = n"
            using len len' by (simp_all add: h1_def h1'_def)
          have a1: "agree (Suc level) h1 h1'"
            unfolding agree_def
          proof (intro conjI ballI)
            show "length h1' = length h1" using lens by simp
            show "hierarchy_ok h1" using pres_hierarchy_ok [OF p1 _ len] a by (simp add: agree_def)
            show "hierarchy_ok h1'" using pres_hierarchy_ok [OF p1' _ len'] a by (simp add: agree_def)
            show "mgl_x (h1 ! Suc level) = mgl_x (h1' ! Suc level)"
              using d1eq lev1 len len' by (simp add: h1_def h1'_def)
            show "mgl_b (h1 ! Suc level) = mgl_b (h1' ! Suc level)"
              using d1eq lev1 len len' by (simp add: h1_def h1'_def)
          next
            fix l assume "l \<in> {0 ..< length h1}"
            hence l: "l < n" using lens by simp
            have "static_eq (h1 ! l) (h ! l)" "static_eq (h ! l) (h' ! l)" "static_eq (h' ! l) (h1' ! l)"
              using p1 p1' a len l by (auto simp: pres_def agree_def intro: static_eq_sym)
            thus "static_eq (h1 ! l) (h1' ! l)" by (blast intro: static_eq_trans)
          qed
          have IH: "((mgrecur_times ext param n h1 (Suc level) ?c = None)
                      = (mgrecur_times ext param n h1' (Suc level) ?c = None))"
            "\<And>g g'. mgrecur_times ext param n h1 (Suc level) ?c = Some g
               \<Longrightarrow> mgrecur_times ext param n h1' (Suc level) ?c = Some g'
               \<Longrightarrow> mgl_x (g ! Suc level) = mgl_x (g' ! Suc level)"
            using 1 [OF _ True _ d0_def d1_def h1_def] lev lev1 ext lens(1) a1 by auto
          have ok1: "\<forall>l<n. level_ok (h1 ! l)" "\<forall>l<n. level_ok (h1' ! l)"
            using p1 p1' by (simp_all add: pres_def)
          have up: "mgl_x (g[level := post_smooth ext param level
                                          (prolongation (g ! level) (g ! Suc level))] ! level)
                  = mgl_x (g'[level := post_smooth ext param level
                                          (prolongation (g' ! level) (g' ! Suc level))] ! level)"
            if t: "mgrecur_times ext param n h1 (Suc level) ?c = Some g"
              and t': "mgrecur_times ext param n h1' (Suc level) ?c = Some g'" for g g'
          proof -
            have q: "pres n (Suc level) h1 g" "pres n (Suc level) h1' g'"
              using mgrecur_pres_aux(2) [of ext h1 n "Suc level" param ?c]
                mgrecur_pres_aux(2) [of ext h1' n "Suc level" param ?c]
                ext lens ok1 lev1 t t' by simp_all
            have f: "g ! level = d0" "g' ! level = d0'" "length g = n" "length g' = n"
              using q lev len len' by (simp_all add: pres_def h1_def h1'_def)
            have "mgl_x d0 = mgl_x d0'" "mgl_b d0 = mgl_b d0'"
              using px xb by (simp_all add: d0_def d0'_def)
            from up_x [OF sd0 this IH(2) [OF t t']] show ?thesis
              using f lev by simp
          qed
          show ?thesis
            unfolding run run' using IH(1) up by (auto split: option.splits)
        qed
      qed
    qed
  qed
next
  case (2 ext param n h level)
  show ?case by (simp add: agree_def)
next
  case (3 ext param n h level i)
  show ?case
  proof (intro impI allI)
    fix h'
    assume ext: "ext_ok ext" and len: "length h = n" and lev: "level < n"
      and a: "agree level h h'"
    have len': "length h' = n" using a len by (simp add: agree_def)
    have oks: "\<forall>l<n. level_ok (h ! l)" "\<forall>l<n. level_ok (h' ! l)"
      using a len by (simp_all add: agree_def hierarchy_ok_def)
    have P: "(mgrecur ext param n h level = None) = (mgrecur ext param n h' level = None)"
      "\<And>g g'. mgrecur ext param n h level = Some g \<Longrightarrow> mgrecur ext param n h' level = Some g'
         \<Longrightarrow> mgl_x (g ! level) = mgl_x (g' ! level)"
      using 3(1) ext len a by auto
    show "((mgrecur_times ext param n h level (Suc i) = None)
            = (mgrecur_times ext param n h' level (Suc i) = None))
         \<and> (\<forall>g g'. mgrecur_times ext param n h level (Suc i) = Some g
               \<longrightarrow> mgrecur_times ext param n h' level (Suc i) = Some g'
               \<longrightarrow> mgl_x (g ! level) = mgl_x (g' ! level))"
    proof (cases "mgrecur ext param n h level")
      case None
      thus ?thesis using P(1) by simp
    next
      case (Some g1)
      then obtain g1' where g1': "mgrecur ext param n h' level = Some g1'"
        using P(1) by (cases "mgrecur ext param n h' level") auto
      have q: "pres n level h g1" "pres n level h' g1'"
        using mgrecur_pres_aux(1) [of ext h n param level] mgrecur_pres_aux(1) [of ext h' n param level]
          ext len len' oks Some g1' by simp_all
      have a1: "agree level g1 g1'"
        by (rule agree_after [OF a len q P(2) [OF Some g1']])
      have "length g1 = n" using q by (simp add: pres_def)
      thus ?thesis using 3(2) [OF Some] ext lev a1 Some g1' by simp
    qed
  qed
qed

lemma mgrecur_length_aux:
  "(\<forall>g. mgrecur ext param n h level = Some g \<longrightarrow> length g = length h)"
  "(\<forall>g. mgrecur_times ext param n h level i = Some g \<longrightarrow> length g = length h)"
proof (induction ext param n h level and ext param n h level i rule: mgrecur_mgrecur_times.induct)
  case (1 ext param n h level)
  show ?case
  proof (intro allI impI)
    fix g assume run: "mgrecur ext param n h level = Some g"
    show "length g = length h"
    proof (cases "\<not> n \<le> level \<and> int level < num_levels (h ! level) - 1 \<and> \<not> n \<le> Suc level")
      case False
      thus ?thesis using run by (subst (asm) mgrecur.simps) (auto split: if_splits)
    next
      case True
      define d0 where "d0 = form_residual (pre_smooth ext param level (h ! level))"
      define d1 where "d1 = zero_guess (restriction d0 (h ! Suc level))"
      define h1 where "h1 = h[level := d0, Suc level := d1]"
      obtain g1 where t: "mgrecur_times ext param n h1 (Suc level) (nat (cycle_type param)) = Some g1"
        and g: "g = g1[level := post_smooth ext param level (prolongation (g1 ! level) (g1 ! Suc level))]"
        using run True
        by (subst (asm) mgrecur.simps)
           (auto simp: Let_def d0_def [symmetric] d1_def [symmetric] h1_def [symmetric]
                 split: option.splits)
      have "length g1 = length h1" using 1 [OF _ _ _ d0_def d1_def h1_def] True t by simp
      thus ?thesis by (simp add: g h1_def)
    qed
  qed
next
  case 2 show ?case by simp
next
  case (3 ext param n h level i)
  show ?case
  proof (intro allI impI)
    fix g assume run: "mgrecur_times ext param n h level (Suc i) = Some g"
    then obtain g1 where r1: "mgrecur ext param n h level = Some g1"
      and r2: "mgrecur_times ext param n g1 level i = Some g"
      by (cases "mgrecur ext param n h level") simp_all
    have "length g1 = length h" using 3(1) r1 by simp
    moreover have "length g = length g1" using 3(2) [OF r1] r2 by simp
    ultimately show "length g = length h" by simp
  qed
qed

lemma step_opt_simps [simp]: "step_opt f None = None" "step_opt f (Some g) = f g"
  by (simp_all add: step_opt_def)

lemma step_opt_funpow_None [simp]: "(step_opt f ^^ i) None = None"
  by (induction i) simp_all

lemma mgrecur_times_funpow:
  "mgrecur_times ext param n h level i
   = (step_opt (\<lambda>g. mgrecur ext param n g level) ^^ i) (Some h)"
proof (induction i arbitrary: h)
  case 0 show ?case by simp
next
  case (Suc i)
  have "(step_opt (\<lambda>g. mgrecur ext param n g level) ^^ Suc i) (Some h)
        = (step_opt (\<lambda>g. mgrecur ext param n g level) ^^ i) (mgrecur ext param n h level)"
    by (simp only: funpow_Suc_right comp_apply step_opt_simps)
  also have "\<dots> = mgrecur_times ext param n h level (Suc i)"
    by (cases "mgrecur ext param n h level") (simp_all add: Suc)
  finally show ?case by simp
qed

lemma funpow_solver:
  assumes "length h = n"
  shows "(step_opt (\<lambda>g. mgrecur ext param n g level) ^^ i) (Some h)
       = (step_opt (\<lambda>g. fasp_solver_mgrecur ext param g level) ^^ i) (Some h)
     \<and> (\<forall>g. (step_opt (\<lambda>g. mgrecur ext param n g level) ^^ i) (Some h) = Some g
            \<longrightarrow> length g = n)"
proof (induction i)
  case 0 show ?case using assms by simp
next
  case (Suc i)
  show ?case
  proof (cases "(step_opt (\<lambda>g. mgrecur ext param n g level) ^^ i) (Some h)")
    case None
    hence "(step_opt (\<lambda>g. fasp_solver_mgrecur ext param g level) ^^ i) (Some h) = None"
      using Suc by simp
    thus ?thesis using None by simp
  next
    case (Some g)
    hence g: "length g = n"
      and s: "(step_opt (\<lambda>g. fasp_solver_mgrecur ext param g level) ^^ i) (Some h) = Some g"
      using Suc by simp_all
    have "\<forall>k. mgrecur ext param n g level = Some k \<longrightarrow> length k = n"
      using mgrecur_length_aux(1) [of ext param n g level] g by simp
    thus ?thesis using Some s g by (simp add: fasp_solver_mgrecur_def)
  qed
qed

lemma mgrecur_unfold:
  "fasp_solver_mgrecur ext param h level =
     (if length h \<le> level then None
      else if int level < num_levels (h ! level) - 1
      then (if length h \<le> Suc level then None
            else map_option
                   (\<lambda>g. g[level := post_smooth ext param level
                                      (prolongation (g ! level) (g ! Suc level))])
                   ((step_opt (\<lambda>g. fasp_solver_mgrecur ext param g (Suc level))
                       ^^ nat (cycle_type param))
                      (Some (h[level := form_residual (pre_smooth ext param level (h ! level)),
                               Suc level := zero_guess
                                 (restriction (form_residual (pre_smooth ext param level (h ! level)))
                                    (h ! Suc level))]))))
      else Some (h[level := coarse_solve ext param (h ! level)]))"
proof -
  let ?h1 = "h[level := form_residual (pre_smooth ext param level (h ! level)),
               Suc level := zero_guess
                 (restriction (form_residual (pre_smooth ext param level (h ! level)))
                    (h ! Suc level))]"
  have "mgrecur_times ext param (length h) ?h1 (Suc level) (nat (cycle_type param))
        = (step_opt (\<lambda>g. fasp_solver_mgrecur ext param g (Suc level)) ^^ nat (cycle_type param))
            (Some ?h1)"
    using funpow_solver [where h = ?h1 and n = "length h" and ext = ext and param = param
        and level = "Suc level" and i = "nat (cycle_type param)"]
    by (simp add: mgrecur_times_funpow)
  thus ?thesis
    unfolding fasp_solver_mgrecur_def
    by (subst mgrecur.simps) (simp add: Let_def map_option_case)
qed

lemma take_nth_eq:
  assumes "n \<le> length xs" "\<And>i. i < n \<Longrightarrow> xs ! i = f i"
  shows "take n xs = map f [0 ..< n]"
  using assms by (intro nth_equalityI) simp_all


text \<open>
  C8. The solution that a call of the cycle leaves on its level is a function of the
  hierarchy, of the right-hand side and of the solution vector on that level at the
  call: two well-formed states that agree on these give the same solution, whatever
  the coarser levels and the work spaces hold from earlier calls. In particular a second
  call after the first one, with the solution vector set back, gives the solution of
  the first call again.
\<close>

theorem fasp_solver_mgrecur_deterministic:
  assumes ext: "ext_ok ext" and a: "agree level h h'"
  shows "map_option (\<lambda>g. mgl_x (g ! level)) (fasp_solver_mgrecur ext param h level)
         = map_option (\<lambda>g. mgl_x (g ! level)) (fasp_solver_mgrecur ext param h' level)
       \<and> (case fasp_solver_mgrecur ext param h level of
            None \<Rightarrow> True
          | Some g \<Rightarrow>
              map_option (\<lambda>k. mgl_x (k ! level))
                (fasp_solver_mgrecur ext param (g[level := (g ! level)\<lparr> mgl_x := mgl_x (h ! level) \<rparr>])
                   level)
              = Some (mgl_x (g ! level)))"
proof -
  have gen: "map_option (\<lambda>g. mgl_x (g ! level)) (fasp_solver_mgrecur ext param k level)
         = map_option (\<lambda>g. mgl_x (g ! level)) (fasp_solver_mgrecur ext param k' level)"
    if "agree level k k'" for k k'
  proof -
    have len: "length k' = length k" using that by (simp add: agree_def)
    note m = mgrecur_agree_aux(1) [of ext k "length k" level param, rule_format, OF ext refl that]
    note m1 = conjunct1 [OF m] and m2 = conjunct2 [OF m, rule_format]
    show ?thesis
    proof (cases "mgrecur ext param (length k) k level")
      case None
      hence "mgrecur ext param (length k) k' level = None" using m1 by simp
      thus ?thesis using None by (simp add: fasp_solver_mgrecur_def len)
    next
      case (Some g)
      then obtain g' where g': "mgrecur ext param (length k) k' level = Some g'"
        using m1 by (cases "mgrecur ext param (length k) k' level") simp_all
      show ?thesis using Some g' m2 [OF Some g'] by (simp add: fasp_solver_mgrecur_def len)
    qed
  qed
  have two: "map_option (\<lambda>k. mgl_x (k ! level))
                (fasp_solver_mgrecur ext param (g[level := (g ! level)\<lparr> mgl_x := mgl_x (h ! level) \<rparr>])
                   level)
              = Some (mgl_x (g ! level))"
    if run: "fasp_solver_mgrecur ext param h level = Some g" for g
  proof -
    let ?n = "length h"
    let ?h2 = "g[level := (g ! level)\<lparr> mgl_x := mgl_x (h ! level) \<rparr>]"
    have lev: "level < ?n"
      using run unfolding fasp_solver_mgrecur_def
      by (subst (asm) mgrecur.simps) (simp split: if_splits)
    have hok: "hierarchy_ok h" using a by (simp add: agree_def)
    hence oks: "\<forall>l<?n. level_ok (h ! l)" by (simp add: hierarchy_ok_def)
    have p: "pres ?n level h g"
      using mgrecur_pres_aux(1) [of ext h ?n param level] ext oks run
      by (simp add: fasp_solver_mgrecur_def)
    have ok2: "level_ok ((g ! level)\<lparr> mgl_x := mgl_x (h ! level) \<rparr>)"
    proof -
      have "level_ok (g ! level)" "level_ok (h ! level)" "static_eq (g ! level) (h ! level)"
        using p oks lev by (simp_all add: pres_def)
      thus ?thesis by (simp add: level_ok_def static_eq_def)
    qed
    have p2: "pres ?n level h ?h2"
      unfolding pres_def
    proof (intro conjI allI impI)
      show "length ?h2 = ?n" using p by (simp add: pres_def)
      show "mgl_b (?h2 ! level) = mgl_b (h ! level)" using p lev by (simp add: pres_def)
    next
      fix l assume "l < ?n"
      thus "level_ok (?h2 ! l)" using p ok2 by (cases "l = level") (simp_all add: pres_def)
    next
      fix l assume l: "l < ?n"
      hence "static_eq (g ! l) (h ! l)" using p by (simp add: pres_def)
      thus "static_eq (?h2 ! l) (h ! l)"
        using p l by (cases "l = level") (simp_all add: pres_def static_eq_def)
    next
      fix l assume "l < level"
      thus "?h2 ! l = h ! l" using p by (simp add: pres_def)
    qed
    have "agree level h ?h2"
      unfolding agree_def
    proof (intro conjI ballI)
      show "length ?h2 = length h" using p by (simp add: pres_def)
      show "hierarchy_ok h" by (rule hok)
      show "hierarchy_ok ?h2" by (rule pres_hierarchy_ok [OF p2 hok refl])
      show "mgl_x (h ! level) = mgl_x (?h2 ! level)" using p lev by (simp add: pres_def)
      show "mgl_b (h ! level) = mgl_b (?h2 ! level)" using p2 by (simp add: pres_def)
    next
      fix l assume "l \<in> {0 ..< length h}"
      thus "static_eq (h ! l) (?h2 ! l)" using p2 by (auto simp: pres_def intro: static_eq_sym)
    qed
    from gen [OF this] show ?thesis by (simp add: run)
  qed
  show ?thesis using gen [OF a] two by (simp split: option.splits)
qed

text \<open>
  A W-cycle on a hierarchy of two levels, with stale data on the coarse level and in
  the work space: the state after the call on the fine level, and after a call on the
  coarse level.
\<close>

lemma fasp_solver_mgrecur_example:
  "map_option (map (\<lambda>d. (dval (mgl_x d), dval (mgl_b d), dval (mgl_w d))))
     (fasp_solver_mgrecur cycle_ext_ex (param_ex\<lparr> cycle_type := 2 \<rparr>) (mgl_ex [7] [9] [5, 5, 5]) 0)
   = Some [([5 / 2, 7 / 2, 7 / 2], [1, 2, 3], [1, 2, 1]), ([3], [3], [0, 0])]"
  "map_option (map (\<lambda>d. (dval (mgl_x d), dval (mgl_b d), dval (mgl_w d))))
     (fasp_solver_mgrecur cycle_ext_ex (param_ex\<lparr> cycle_type := 2 \<rparr>) (mgl_ex [7] [9] [5, 5, 5]) 1)
   = Some [([0, 0, 0], [1, 2, 3], [5, 5, 5]), ([7], [7], [0, 0])]"
  by code_simp+

theorem fasp_solver_mgrecur_deterministic_witness:
  "ext_ok cycle_ext_ex \<and> agree 0 (mgl_ex [0] [0] [0, 0, 0]) (mgl_ex [7] [9] [5, 5, 5])
   \<and> map_option (\<lambda>g. mgl_x (g ! 0))
        (fasp_solver_mgrecur cycle_ext_ex param_ex (mgl_ex [0] [0] [0, 0, 0]) 0)
      = Some \<lparr> drow = 3, dval = [5 / 2, 7 / 2, 7 / 2] \<rparr>
   \<and> map_option (\<lambda>g. mgl_x (g ! 0))
        (fasp_solver_mgrecur cycle_ext_ex param_ex (mgl_ex [7] [9] [5, 5, 5]) 0)
      = Some \<lparr> drow = 3, dval = [5 / 2, 7 / 2, 7 / 2] \<rparr>"
proof -
  have e: "ext_ok cycle_ext_ex" by (simp add: ext_ok_def cycle_ext_ex_def)
  have a: "agree 0 (mgl_ex [0] [0] [0, 0, 0]) (mgl_ex [7] [9] [5, 5, 5])"
    by (simp add: agree_def hierarchy_ok_def level_ok_def link_ok_def static_eq_def mgl_ex_def
          A3_def A1_ex_def R_ex_def atLeast0_lessThan_Suc numeral_2_eq_2 numeral_3_eq_3)
  have r: "map_option (\<lambda>g. mgl_x (g ! 0))
        (fasp_solver_mgrecur cycle_ext_ex param_ex (mgl_ex [0] [0] [0, 0, 0]) 0)
      = Some \<lparr> drow = 3, dval = [5 / 2, 7 / 2, 7 / 2] \<rparr>"
    by code_simp
  from fasp_solver_mgrecur_deterministic [OF e a, of param_ex] r
  have "map_option (\<lambda>g. mgl_x (g ! 0))
        (fasp_solver_mgrecur cycle_ext_ex param_ex (mgl_ex [7] [9] [5, 5, 5]) 0)
      = Some \<lparr> drow = 3, dval = [5 / 2, 7 / 2, 7 / 2] \<rparr>"
    by simp
  with e a r show ?thesis by simp
qed

section \<open>A strength graph without edges\<close>

lemma setup_body_no_edges:
  fixes st :: "'lu setup_state"
  assumes "ILU_levels (s_param st) \<le> 0"
    and "s_level st = 0"
    and "coarse_recognized mc (coarsening_type (s_param st))"
    and "1 \<le> aggressive_level (s_param st) \<or> coarsening_type (s_param st) \<noteq> coarse_ac mc"
    and "nnz (generate_S (smallreal mc) (max_row_sum (s_param st)) (strong_threshold (s_param st))
               (mgl_A (s_mgl st ! 0))) = 0"
  shows "\<exists>st'. setup_body mc ext st = Inr (Left st') \<and> s_status st' = RUN_FAIL
           \<and> s_level st' = 0 \<and> length (s_mgl st') = length (s_mgl st)
           \<and> (s_mgl st \<noteq> [] \<longrightarrow> mgl_A (s_mgl st' ! 0) = mgl_A (s_mgl st ! 0))"
  using assms
  by (auto simp: setup_body_def setup_ilu_def fasp_amg_coarsening_rs_def Let_def RUN_FAIL_def)

text \<open>
  C6. When the matrix of the finest level is large enough for the loop to start and
  its strength graph has no edge, \<open>fasp_amg_setup_rs\<close> leaves the loop, completes the
  hierarchy with its one level, and returns the status \<open>RUN_FAIL\<close>, a negative one.
\<close>

theorem fasp_amg_setup_rs_no_edges:
  fixes h :: "'lu AMG_data list"
  assumes "h \<noteq> []"
    and "int (row (mgl_A (h ! 0))) > MAX_int (coarse_dof p) 50"
    and "1 < max_levels p"
    and "ILU_levels p \<le> 0"
    and "coarse_recognized mc (coarsening_type p)"
    and "nnz (generate_S (smallreal mc) (max_row_sum p) (strong_threshold p) (mgl_A (h ! 0))) = 0"
  shows "\<exists>h' p'. fasp_amg_setup_rs mc ext h p = Some (Returned (RUN_FAIL, h', p'))
           \<and> RUN_FAIL < 0 \<and> num_levels (h' ! 0) = 1 \<and> mgl_A (h' ! 0) = mgl_A (h ! 0)"
proof -
  define p1 where "p1 = (let q = p\<lparr> tentative_smooth := 1 \<rparr>
                          in if coarsening_type q = coarse_ac mc \<and> aggressive_level q < 1
                             then q\<lparr> aggressive_level := 1 \<rparr> else q)"
  define st :: "'lu setup_state" where
    "st = \<lparr> s_mgl = h, s_vertices = replicate (nat (int (row (mgl_A (h ! 0))))) 0,
            s_str = \<lparr> row = 0, col = 0, nnz = 0, IA = [], JA = [], val = None \<rparr>,
            s_param = p1, s_level = 0, s_status = SUCCESS \<rparr>"
  have p1: "coarsening_type p1 = coarsening_type p" "max_row_sum p1 = max_row_sum p"
    "strong_threshold p1 = strong_threshold p" "ILU_levels p1 = ILU_levels p"
    "coarse_dof p1 = coarse_dof p" "max_levels p1 = max_levels p" "cycle_type p1 = cycle_type p"
    "1 \<le> aggressive_level p1 \<or> coarsening_type p1 \<noteq> coarse_ac mc"
    by (auto simp: p1_def Let_def)
  obtain st' where body: "setup_body mc ext st = Inr (Left st')" and st': "s_status st' = RUN_FAIL"
    "s_level st' = 0" "length (s_mgl st') = length h" "mgl_A (s_mgl st' ! 0) = mgl_A (h ! 0)"
    using setup_body_no_edges [of st mc ext] assms p1 by (auto simp: st_def)
  have loop: "setup_loop mc ext (max_levels p) st = Left st'"
    using assms(1-3) body by (subst setup_loop.simps) (simp add: st_def p1)
  have "fasp_amg_setup_rs mc ext h p =
          (case setup_loop mc ext (max_levels p1) st of
             Left st \<Rightarrow> Some (Returned (s_status st,
                          setup_finish mc (cycle_type p1) (int (row (mgl_A (h ! 0)))) st, s_param st))
           | Finished st \<Rightarrow> Some (Returned (s_status st, s_mgl st, s_param st))
           | Aborted c \<Rightarrow> Some (Exited c)
           | Diverged \<Rightarrow> None)"
    unfolding fasp_amg_setup_rs_def p1_def st_def Let_def by (rule refl)
  hence "fasp_amg_setup_rs mc ext h p =
          Some (Returned (s_status st',
                 setup_finish mc (cycle_type p) (int (row (mgl_A (h ! 0)))) st', s_param st'))"
    by (simp add: loop p1)
  moreover have "num_levels (setup_finish mc (cycle_type p) (int (row (mgl_A (h ! 0)))) st' ! 0) = 1"
    "mgl_A (setup_finish mc (cycle_type p) (int (row (mgl_A (h ! 0)))) st' ! 0) = mgl_A (h ! 0)"
    using st' assms(1) by (simp_all add: setup_finish_def Let_def)
  ultimately show ?thesis using st'(1) by (simp add: RUN_FAIL_def)
qed

theorem fasp_amg_setup_rs_no_edges_witness:
  "hierarchy_ex (A_diag 51) 2 \<noteq> []
   \<and> int (row (mgl_A (hierarchy_ex (A_diag 51) 2 ! 0))) > MAX_int (coarse_dof param_ex) 50
   \<and> 1 < max_levels param_ex
   \<and> ILU_levels param_ex \<le> 0
   \<and> coarse_recognized mc_ex (coarsening_type param_ex)
   \<and> nnz (generate_S (smallreal mc_ex) (max_row_sum param_ex) (strong_threshold param_ex)
            (mgl_A (hierarchy_ex (A_diag 51) 2 ! 0))) = 0
   \<and> (\<exists>h' p'. fasp_amg_setup_rs mc_ex ext_ex (hierarchy_ex (A_diag 51) 2) param_ex
                  = Some (Returned (- 100, h', p'))
           \<and> num_levels (h' ! 0) = 1 \<and> mgl_A (h' ! 0) = A_diag 51)"
proof -
  have g: "nnz (generate_S (smallreal mc_ex) (max_row_sum param_ex) (strong_threshold param_ex)
            (A_diag 51)) = 0"
    by code_simp
  have a: "mgl_A (hierarchy_ex (A_diag 51) 2 ! 0) = A_diag 51"
    by (simp add: hierarchy_ex_def level_ex_def)
  have h1: "hierarchy_ex (A_diag 51) 2 \<noteq> []"
    by (simp add: hierarchy_ex_def)
  have h2: "int (row (mgl_A (hierarchy_ex (A_diag 51) 2 ! 0))) > MAX_int (coarse_dof param_ex) 50"
    unfolding a by (simp add: A_diag_def MAX_int_def param_ex_def)
  have h3: "1 < max_levels param_ex" and h4: "ILU_levels param_ex \<le> 0"
    by (simp_all add: param_ex_def)
  have h5: "coarse_recognized mc_ex (coarsening_type param_ex)"
    by (simp add: coarse_recognized_def mc_ex_def param_ex_def)
  have h6: "nnz (generate_S (smallreal mc_ex) (max_row_sum param_ex) (strong_threshold param_ex)
            (mgl_A (hierarchy_ex (A_diag 51) 2 ! 0))) = 0"
    using g by (simp only: a)
  have "\<exists>h' p'. fasp_amg_setup_rs mc_ex ext_ex (hierarchy_ex (A_diag 51) 2) param_ex
                  = Some (Returned (- 100, h', p'))
           \<and> num_levels (h' ! 0) = 1 \<and> mgl_A (h' ! 0) = A_diag 51"
    using fasp_amg_setup_rs_no_edges [OF h1 h2 h3 h4 h5 h6, of ext_ex]
    by (simp add: RUN_FAIL_def a)
  with h1 h2 h3 h4 h5 h6 show ?thesis by blast
qed

subsection \<open>Threshold adaptation\<close>




end
